theory Spec2Isabelle
  imports Main
begin

section \<open>The element type \<open>T\<close>\<close>

text \<open>
  \<open>vector.h\<close> is a template over the element type \<open>T\<close>. What the container needs to
  know about \<open>T\<close> is taken as a parameter: the two compile-time traits the code branches
  on, which of \<open>T\<close>'s special member functions throw (as a function of the values
  involved), the state a moved-from object is left in, and the result of value
  initialisation \<open>T()\<close>. A copy or a move that succeeds produces an object with the value
  of its source; an operation that throws leaves its operands as they were.
\<close>

record 'a elem_type =
  is_nothrow_move_constructible :: bool
  is_copy_constructible :: bool
  copy_ctor_throws :: "'a \<Rightarrow> bool"
  move_ctor_throws :: "'a \<Rightarrow> bool"
  copy_assign_throws :: "'a \<Rightarrow> 'a \<Rightarrow> bool"
  move_assign_throws :: "'a \<Rightarrow> 'a \<Rightarrow> bool"
  moved_from :: "'a \<Rightarrow> 'a"
  value_init :: "'a option"

text \<open>\<open>T(const T&)\<close>: \<open>None\<close> when the copy constructor throws.\<close>

definition copy_construct :: "'a elem_type \<Rightarrow> 'a \<Rightarrow> 'a option" where
  "copy_construct T x = (if copy_ctor_throws T x then None else Some x)"

text \<open>
  \<open>T(T&&)\<close>: the new object and the state left in the source, \<open>None\<close> when the move
  constructor throws. No exception leaves a constructor that is \<open>noexcept\<close>.
\<close>

definition move_construct :: "'a elem_type \<Rightarrow> 'a \<Rightarrow> ('a \<times> 'a) option" where
  "move_construct T x =
     (if \<not> is_nothrow_move_constructible T \<and> move_ctor_throws T x then None
      else Some (x, moved_from T x))"

section \<open>Raw storage and the standard algorithms on it\<close>

text \<open>
  A block of raw memory for \<open>n\<close> objects is a list of \<open>n\<close> slots; a slot is \<open>None\<close> while
  it is uninitialised and \<open>Some x\<close> while an object with value \<open>x\<close> lives in it.
  The counts of type \<open>size_t\<close> are natural numbers, and arithmetic on them does not
  wrap around. This leaves out the requests in which the code's own arithmetic wraps:
  \<open>size_ * 2\<close> for a size of \<open>2^63\<close> or more, and the byte count \<open>n * sizeof(T)\<close> of
  an allocation when it reaches \<open>2^64\<close> (there \<open>operator new\<close> is asked for the wrapped
  count, and \<open>capacity_\<close> records more slots than the block has).
\<close>

type_synonym 'a slots = "'a option list"

datatype exn = bad_alloc | elem_exception

text \<open>
  An operation returns, or leaves by an exception (with the state the exception leaves
  behind), or has no defined behaviour (\<open>Fault\<close>: a failed \<open>assert\<close>, an access outside
  the block, the use of a slot that holds no object).
\<close>

datatype ('n, 't) outcome = Returned 'n | Thrown exn 't | Fault

definition rd :: "'a slots \<Rightarrow> nat \<Rightarrow> 'a option" where
  "rd s i = (if i < length s then s ! i else None)"

text \<open>Placement \<open>new\<close> at slot \<open>i\<close>, given the constructed value.\<close>

definition construct_at :: "'a slots \<Rightarrow> nat \<Rightarrow> 'a \<Rightarrow> 'a slots option" where
  "construct_at s i x = (if i < length s then Some (s[i := Some x]) else None)"

definition destroy_at :: "'a slots \<Rightarrow> nat \<Rightarrow> 'a slots option" where
  "destroy_at s i = (case rd s i of None \<Rightarrow> None | Some x \<Rightarrow> Some (s[i := None]))"

fun destroy_n :: "'a slots \<Rightarrow> nat \<Rightarrow> nat \<Rightarrow> 'a slots option" where
  "destroy_n s first 0 = Some s"
| "destroy_n s first (Suc n) =
     (case destroy_at s first of None \<Rightarrow> None
      | Some s1 \<Rightarrow> destroy_n s1 (Suc first) n)"

text \<open>
  The \<open>std::uninitialized_*_n\<close> algorithms construct \<open>n\<close> objects in a row; when a
  constructor throws they destroy the objects built so far and rethrow.
\<close>

fun uninitialized_value_construct_n ::
  "'a elem_type \<Rightarrow> 'a slots \<Rightarrow> nat \<Rightarrow> nat \<Rightarrow> ('a slots, 'a slots) outcome" where
  "uninitialized_value_construct_n T dst d 0 = Returned dst"
| "uninitialized_value_construct_n T dst d (Suc n) =
     (case value_init T of None \<Rightarrow> Thrown elem_exception dst
      | Some y \<Rightarrow>
        (case construct_at dst d y of None \<Rightarrow> Fault
         | Some dst1 \<Rightarrow>
           (case uninitialized_value_construct_n T dst1 (Suc d) n of
              Returned dst2 \<Rightarrow> Returned dst2
            | Thrown e dst2 \<Rightarrow> Thrown e (dst2[d := None])
            | Fault \<Rightarrow> Fault)))"

fun uninitialized_copy_n ::
  "'a elem_type \<Rightarrow> 'a slots \<Rightarrow> nat \<Rightarrow> nat \<Rightarrow> 'a slots \<Rightarrow> nat \<Rightarrow> ('a slots, 'a slots) outcome" where
  "uninitialized_copy_n T src first 0 dst d = Returned dst"
| "uninitialized_copy_n T src first (Suc n) dst d =
     (case rd src first of None \<Rightarrow> Fault
      | Some x \<Rightarrow>
        (case copy_construct T x of None \<Rightarrow> Thrown elem_exception dst
         | Some y \<Rightarrow>
           (case construct_at dst d y of None \<Rightarrow> Fault
            | Some dst1 \<Rightarrow>
              (case uninitialized_copy_n T src (Suc first) n dst1 (Suc d) of
                 Returned dst2 \<Rightarrow> Returned dst2
               | Thrown e dst2 \<Rightarrow> Thrown e (dst2[d := None])
               | Fault \<Rightarrow> Fault))))"

text \<open>A move changes its source, so the source block is part of the result.\<close>

fun uninitialized_move_n ::
  "'a elem_type \<Rightarrow> 'a slots \<Rightarrow> nat \<Rightarrow> nat \<Rightarrow> 'a slots \<Rightarrow> nat \<Rightarrow>
     ('a slots \<times> 'a slots, 'a slots \<times> 'a slots) outcome" where
  "uninitialized_move_n T src first 0 dst d = Returned (src, dst)"
| "uninitialized_move_n T src first (Suc n) dst d =
     (case rd src first of None \<Rightarrow> Fault
      | Some x \<Rightarrow>
        (case move_construct T x of None \<Rightarrow> Thrown elem_exception (src, dst)
         | Some (y, r) \<Rightarrow>
           (case construct_at dst d y of None \<Rightarrow> Fault
            | Some dst1 \<Rightarrow>
              (case uninitialized_move_n T (src[first := Some r]) (Suc first) n dst1 (Suc d) of
                 Returned p \<Rightarrow> Returned p
               | Thrown e (src2, dst2) \<Rightarrow> Thrown e (src2, dst2[d := None])
               | Fault \<Rightarrow> Fault))))"

text \<open>
  \<open>std::copy\<close> from one block into another: copy assignment, element by element, onto
  objects that are alive. An exception leaves the elements assigned so far assigned.
\<close>

fun copy_loop ::
  "'a elem_type \<Rightarrow> 'a slots \<Rightarrow> nat \<Rightarrow> nat \<Rightarrow> 'a slots \<Rightarrow> nat \<Rightarrow> ('a slots, 'a slots) outcome" where
  "copy_loop T src first 0 dst d = Returned dst"
| "copy_loop T src first (Suc n) dst d =
     (case rd src first of None \<Rightarrow> Fault
      | Some x \<Rightarrow>
        (case rd dst d of None \<Rightarrow> Fault
         | Some y \<Rightarrow>
           (if copy_assign_throws T y x then Thrown elem_exception dst
            else copy_loop T src (Suc first) n (dst[d := Some x]) (Suc d))))"

definition std_copy ::
  "'a elem_type \<Rightarrow> 'a slots \<Rightarrow> nat \<Rightarrow> nat \<Rightarrow> 'a slots \<Rightarrow> nat \<Rightarrow> ('a slots, 'a slots) outcome" where
  "std_copy T src first lst dst d_first =
     (if first \<le> lst then copy_loop T src first (lst - first) dst d_first else Fault)"

text \<open>
  \<open>std::move\<close> (the algorithm) inside one block, front to back: move assignment of
  slot \<open>first\<close> onto slot \<open>d\<close>, then the next pair.
\<close>

fun move_loop ::
  "'a elem_type \<Rightarrow> 'a slots \<Rightarrow> nat \<Rightarrow> nat \<Rightarrow> nat \<Rightarrow> ('a slots, 'a slots) outcome" where
  "move_loop T s first 0 d = Returned s"
| "move_loop T s first (Suc n) d =
     (case rd s first of None \<Rightarrow> Fault
      | Some x \<Rightarrow>
        (case rd s d of None \<Rightarrow> Fault
         | Some y \<Rightarrow>
           (if move_assign_throws T y x then Thrown elem_exception s
            else move_loop T (s[d := Some x, first := Some (moved_from T x)]) (Suc first) n (Suc d))))"

definition std_move ::
  "'a elem_type \<Rightarrow> 'a slots \<Rightarrow> nat \<Rightarrow> nat \<Rightarrow> nat \<Rightarrow> ('a slots, 'a slots) outcome" where
  "std_move T s first lst d_first =
     (if first \<le> lst then move_loop T s first (lst - first) d_first else Fault)"

text \<open>
  \<open>std::move_backward\<close> inside one block, back to front: move assignment of slot
  \<open>last - 1\<close> onto slot \<open>d_last - 1\<close>, then the pair before.
\<close>

fun move_backward_loop ::
  "'a elem_type \<Rightarrow> 'a slots \<Rightarrow> nat \<Rightarrow> nat \<Rightarrow> nat \<Rightarrow> ('a slots, 'a slots) outcome" where
  "move_backward_loop T s lst 0 d_last = Returned s"
| "move_backward_loop T s lst (Suc n) d_last =
     (if lst = 0 \<or> d_last = 0 then Fault
      else
        (case rd s (lst - 1) of None \<Rightarrow> Fault
         | Some x \<Rightarrow>
           (case rd s (d_last - 1) of None \<Rightarrow> Fault
            | Some y \<Rightarrow>
              (if move_assign_throws T y x then Thrown elem_exception s
               else move_backward_loop T
                      (s[d_last - 1 := Some x, lst - 1 := Some (moved_from T x)])
                      (lst - 1) n (d_last - 1)))))"

definition move_backward ::
  "'a elem_type \<Rightarrow> 'a slots \<Rightarrow> nat \<Rightarrow> nat \<Rightarrow> nat \<Rightarrow> ('a slots, 'a slots) outcome" where
  "move_backward T s first lst d_last =
     (if first \<le> lst then move_backward_loop T s lst (lst - first) d_last else Fault)"

section \<open>The allocator\<close>

text \<open>
  \<open>operator new\<close> and \<open>operator delete\<close>: the heap counts the blocks handed out and
  the slots it can still provide; a request it cannot satisfy throws \<open>std::bad_alloc\<close>.
  \<open>Allocate n\<close> stands for \<open>operator new(n * sizeof(T))\<close> with \<open>n * sizeof(T)\<close> below
  \<open>2^64\<close>: the block it returns has exactly \<open>n\<close> slots. A request whose byte count
  wraps around in \<open>size_t\<close> (such as \<open>Reserve(1 << 62)\<close> for a four-byte \<open>T\<close>, which
  the code answers with a block of zero bytes and \<open>capacity_ = 1 << 62\<close>) is outside
  the model.
\<close>

record heap =
  allocs :: nat
  avail :: nat

definition Allocate :: "nat \<Rightarrow> heap \<Rightarrow> ('a slots \<times> heap) option" where
  "Allocate n h =
     (if n \<noteq> 0 then
        (if n \<le> avail h
         then Some (replicate n None, h\<lparr>allocs := Suc (allocs h), avail := avail h - n\<rparr>)
         else None)
      else Some ([], h))"

definition Deallocate :: "'a slots \<Rightarrow> heap \<Rightarrow> heap" where
  "Deallocate buf h = h\<lparr>avail := avail h + length buf\<rparr>"

section \<open>\<open>RawMemory\<close>\<close>

text \<open>
  The data members \<open>buffer_\<close>, \<open>capacity_\<close>, \<open>size_\<close> and \<open>data_\<close> are the fields
  \<open>buffer_m\<close>, \<open>capacity_m\<close>, \<open>size_m\<close> and \<open>data_m\<close> (a name cannot end in an
  underscore here). The pointer \<open>buffer_\<close> is modelled by the block it points to; the
  null pointer is the empty block.
\<close>

record 'a RawMemory =
  buffer_m :: "'a slots"
  capacity_m :: nat

definition RawMemory_default :: "'a RawMemory" where
  "RawMemory_default = \<lparr>buffer_m = [], capacity_m = 0\<rparr>"

definition RawMemory_ctor :: "nat \<Rightarrow> heap \<Rightarrow> ('a RawMemory \<times> heap) option" where
  "RawMemory_ctor capacity h =
     (case Allocate capacity h of None \<Rightarrow> None
      | Some (b, h1) \<Rightarrow> Some (\<lparr>buffer_m = b, capacity_m = capacity\<rparr>, h1))"

definition RawMemory_dtor :: "'a RawMemory \<Rightarrow> heap \<Rightarrow> heap" where
  "RawMemory_dtor m h = Deallocate (buffer_m m) h"

text \<open>\<open>operator+\<close>: the offset of the slot, after \<open>assert(offset <= capacity_)\<close>.\<close>

definition RawMemory_plus :: "'a RawMemory \<Rightarrow> nat \<Rightarrow> nat option" where
  "RawMemory_plus m offset = (if offset \<le> capacity_m m then Some offset else None)"

text \<open>\<open>operator[]\<close>: the object in the slot, after \<open>assert(index < capacity_)\<close>.\<close>

definition RawMemory_index :: "'a RawMemory \<Rightarrow> nat \<Rightarrow> 'a option" where
  "RawMemory_index m index = (if index < capacity_m m then rd (buffer_m m) index else None)"

definition RawMemory_Swap :: "'a RawMemory \<Rightarrow> 'a RawMemory \<Rightarrow> 'a RawMemory \<times> 'a RawMemory" where
  "RawMemory_Swap m other =
     (m\<lparr>buffer_m := buffer_m other, capacity_m := capacity_m other\<rparr>,
      other\<lparr>buffer_m := buffer_m m, capacity_m := capacity_m m\<rparr>)"

section \<open>\<open>Vector\<close>\<close>

record 'a Vector =
  size_m :: nat
  data_m :: "'a RawMemory"

definition Vector_default :: "'a Vector" where
  "Vector_default = \<lparr>size_m = 0, data_m = RawMemory_default\<rparr>"

definition Size :: "'a Vector \<Rightarrow> nat" where
  "Size v = size_m v"

definition Capacity :: "'a Vector \<Rightarrow> nat" where
  "Capacity v = capacity_m (data_m v)"

text \<open>The slots behind \<open>data_.GetAddress()\<close>, and the vector with these slots rewritten.\<close>

definition GetAddress :: "'a Vector \<Rightarrow> 'a slots" where
  "GetAddress v = buffer_m (data_m v)"

definition with_slots :: "'a Vector \<Rightarrow> 'a slots \<Rightarrow> 'a Vector" where
  "with_slots v b = v\<lparr>data_m := (data_m v)\<lparr>buffer_m := b\<rparr>\<rparr>"

text \<open>An iterator is a pointer into the block: its offset from \<open>data_.GetAddress()\<close>.\<close>

definition Vector_begin :: "'a Vector \<Rightarrow> nat" where
  "Vector_begin v = 0"

definition Vector_end :: "'a Vector \<Rightarrow> nat" where
  "Vector_end v = size_m v"

text \<open>\<open>operator[]\<close>, after \<open>assert(index < size_)\<close>.\<close>

definition Vector_index :: "'a Vector \<Rightarrow> nat \<Rightarrow> 'a option" where
  "Vector_index v index = (if index < size_m v then RawMemory_index (data_m v) index else None)"

definition Swap :: "'a Vector \<Rightarrow> 'a Vector \<Rightarrow> 'a Vector \<times> 'a Vector" where
  "Swap v other =
     (let (d, od) = RawMemory_Swap (data_m v) (data_m other)
      in (v\<lparr>data_m := d, size_m := size_m other\<rparr>, other\<lparr>data_m := od, size_m := size_m v\<rparr>))"

section \<open>Construction and destruction\<close>

text \<open>
  \<open>Vector(size_t size)\<close>. When value initialisation throws, the member \<open>data_\<close> is
  destroyed again and no vector exists.
\<close>

definition Vector_sized ::
  "'a elem_type \<Rightarrow> nat \<Rightarrow> heap \<Rightarrow> ('a Vector \<times> heap, heap) outcome" where
  "Vector_sized T sz h =
     (case RawMemory_ctor sz h of None \<Rightarrow> Thrown bad_alloc h
      | Some (d, h1) \<Rightarrow>
        (case uninitialized_value_construct_n T (buffer_m d) 0 sz of
           Returned b \<Rightarrow> Returned (\<lparr>size_m = sz, data_m = d\<lparr>buffer_m := b\<rparr>\<rparr>, h1)
         | Thrown e b \<Rightarrow> Thrown e (RawMemory_dtor (d\<lparr>buffer_m := b\<rparr>) h1)
         | Fault \<Rightarrow> Fault))"

text \<open>\<open>Vector(const Vector& other)\<close>.\<close>

definition Vector_copy ::
  "'a elem_type \<Rightarrow> 'a Vector \<Rightarrow> heap \<Rightarrow> ('a Vector \<times> heap, heap) outcome" where
  "Vector_copy T other h =
     (case RawMemory_ctor (size_m other) h of None \<Rightarrow> Thrown bad_alloc h
      | Some (d, h1) \<Rightarrow>
        (case uninitialized_copy_n T (GetAddress other) 0 (size_m other) (buffer_m d) 0 of
           Returned b \<Rightarrow> Returned (\<lparr>size_m = size_m other, data_m = d\<lparr>buffer_m := b\<rparr>\<rparr>, h1)
         | Thrown e b \<Rightarrow> Thrown e (RawMemory_dtor (d\<lparr>buffer_m := b\<rparr>) h1)
         | Fault \<Rightarrow> Fault))"

text \<open>
  \<open>Vector(Vector&& other)\<close>: the new vector starts from the default member
  initialisers and swaps with \<open>other\<close>. The result is the new vector and what is left
  of \<open>other\<close>.
\<close>

definition Vector_move :: "'a Vector \<Rightarrow> heap \<Rightarrow> ('a Vector \<times> 'a Vector) \<times> heap" where
  "Vector_move other h = (Swap Vector_default other, h)"

text \<open>\<open>~Vector()\<close>, followed by the destructor of the member \<open>data_\<close>.\<close>

definition Vector_dtor :: "'a Vector \<Rightarrow> heap \<Rightarrow> heap option" where
  "Vector_dtor v h =
     (case destroy_n (GetAddress v) 0 (size_m v) of None \<Rightarrow> None
      | Some b \<Rightarrow> Some (RawMemory_dtor ((data_m v)\<lparr>buffer_m := b\<rparr>) h))"

section \<open>Growth\<close>

text \<open>
  The end of a reallocation (\<open>Reserve\<close>, \<open>EmplaceBack\<close>, \<open>Emplace\<close>):
  \<open>std::destroy_n(data_.GetAddress(), size_); data_.Swap(new_data);\<close> and the
  destructor of \<open>new_data\<close>, which now owns the old block.
\<close>

definition release_old ::
  "'a Vector \<Rightarrow> 'a RawMemory \<Rightarrow> heap \<Rightarrow> ('a Vector \<times> heap, 'a Vector \<times> heap) outcome" where
  "release_old v new_data h =
     (case destroy_n (GetAddress v) 0 (size_m v) of None \<Rightarrow> Fault
      | Some b \<Rightarrow>
        (let (d, nd) = RawMemory_Swap ((data_m v)\<lparr>buffer_m := b\<rparr>) new_data
         in Returned (v\<lparr>data_m := d\<rparr>, RawMemory_dtor nd h)))"

text \<open>
  The migration of all \<open>size_\<close> elements to the front of \<open>new_data\<close>, as \<open>Reserve\<close> and
  \<open>EmplaceBack\<close> both write it: moved when \<open>T\<close> is nothrow move constructible or cannot
  be copied, copied otherwise. An exception destroys \<open>new_data\<close> on the way out.
\<close>

definition migrate ::
  "'a elem_type \<Rightarrow> 'a Vector \<Rightarrow> 'a RawMemory \<Rightarrow> heap \<Rightarrow>
     ('a Vector \<times> heap, 'a Vector \<times> heap) outcome" where
  "migrate T v new_data h =
     (if is_nothrow_move_constructible T \<or> \<not> is_copy_constructible T then
        (case uninitialized_move_n T (GetAddress v) 0 (size_m v) (buffer_m new_data) 0 of
           Fault \<Rightarrow> Fault
         | Thrown e (src, dst) \<Rightarrow>
             Thrown e (with_slots v src, RawMemory_dtor (new_data\<lparr>buffer_m := dst\<rparr>) h)
         | Returned (src, dst) \<Rightarrow>
             release_old (with_slots v src) (new_data\<lparr>buffer_m := dst\<rparr>) h)
      else
        (case uninitialized_copy_n T (GetAddress v) 0 (size_m v) (buffer_m new_data) 0 of
           Fault \<Rightarrow> Fault
         | Thrown e dst \<Rightarrow> Thrown e (v, RawMemory_dtor (new_data\<lparr>buffer_m := dst\<rparr>) h)
         | Returned dst \<Rightarrow> release_old v (new_data\<lparr>buffer_m := dst\<rparr>) h))"

definition Reserve ::
  "'a elem_type \<Rightarrow> nat \<Rightarrow> 'a Vector \<times> heap \<Rightarrow> ('a Vector \<times> heap, 'a Vector \<times> heap) outcome" where
  "Reserve T new_capacity s =
     (case s of (v, h) \<Rightarrow>
        if new_capacity \<le> capacity_m (data_m v) then Returned (v, h)
        else
          (case RawMemory_ctor new_capacity h of None \<Rightarrow> Thrown bad_alloc (v, h)
           | Some (new_data, h1) \<Rightarrow> migrate T v new_data h1))"

definition Resize ::
  "'a elem_type \<Rightarrow> nat \<Rightarrow> 'a Vector \<times> heap \<Rightarrow> ('a Vector \<times> heap, 'a Vector \<times> heap) outcome" where
  "Resize T new_size s =
     (case s of (v, h) \<Rightarrow>
        if new_size \<noteq> size_m v then
          (if new_size < size_m v then
             (case destroy_n (GetAddress v) new_size (size_m v - new_size) of None \<Rightarrow> Fault
              | Some b \<Rightarrow> Returned ((with_slots v b)\<lparr>size_m := new_size\<rparr>, h))
           else
             (case Reserve T new_size (v, h) of
                Fault \<Rightarrow> Fault
              | Thrown e s1 \<Rightarrow> Thrown e s1
              | Returned (v1, h1) \<Rightarrow>
                (case uninitialized_value_construct_n T (GetAddress v1) (size_m v1)
                        (new_size - size_m v1) of
                   Fault \<Rightarrow> Fault
                 | Thrown e b \<Rightarrow> Thrown e (with_slots v1 b, h1)
                 | Returned b \<Rightarrow> Returned ((with_slots v1 b)\<lparr>size_m := new_size\<rparr>, h1))))
        else Returned (v, h))"

section \<open>Appending\<close>

text \<open>
  \<open>EmplaceBack(args...)\<close>. The argument \<open>arg\<close> is what \<open>T(std::forward<Args>(args)...)\<close>
  does with the caller's arguments: \<open>None\<close> when this constructor throws, \<open>Some x\<close> when
  it builds an object of value \<open>x\<close>. The caller's arguments are objects outside the
  vector, so that \<open>arg\<close> does not depend on when the constructor runs. The result is
  the new last element, \<open>data_[size_ - 1]\<close>.
\<close>

definition EmplaceBack ::
  "'a elem_type \<Rightarrow> 'a option \<Rightarrow> 'a Vector \<times> heap \<Rightarrow>
     ('a \<times> 'a Vector \<times> heap, 'a Vector \<times> heap) outcome" where
  "EmplaceBack T arg s =
     (case s of (v, h) \<Rightarrow>
        let finish = (\<lambda>(v1, h1).
              let v2 = v1\<lparr>size_m := size_m v1 + 1\<rparr>
              in (case RawMemory_index (data_m v2) (size_m v2 - 1) of None \<Rightarrow> Fault
                  | Some r \<Rightarrow> Returned (r, v2, h1)))
        in
        if size_m v < Capacity v then
          (case RawMemory_plus (data_m v) (size_m v) of None \<Rightarrow> Fault
           | Some p \<Rightarrow>
             (case arg of None \<Rightarrow> Thrown elem_exception (v, h)
              | Some x \<Rightarrow>
                (case construct_at (GetAddress v) p x of None \<Rightarrow> Fault
                 | Some b \<Rightarrow> finish (with_slots v b, h))))
        else
          (case RawMemory_ctor (if size_m v = 0 then 1 else size_m v * 2) h of
             None \<Rightarrow> Thrown bad_alloc (v, h)
           | Some (new_data, h1) \<Rightarrow>
             (case RawMemory_plus new_data (size_m v) of None \<Rightarrow> Fault
              | Some p \<Rightarrow>
                (case arg of None \<Rightarrow> Thrown elem_exception (v, RawMemory_dtor new_data h1)
                 | Some x \<Rightarrow>
                   (case construct_at (buffer_m new_data) p x of None \<Rightarrow> Fault
                    | Some nb \<Rightarrow>
                      (case migrate T v (new_data\<lparr>buffer_m := nb\<rparr>) h1 of
                         Fault \<Rightarrow> Fault
                       | Thrown e s1 \<Rightarrow> Thrown e s1
                       | Returned s1 \<Rightarrow> finish s1))))))"

text \<open>\<open>PushBack(const T& value)\<close> and \<open>PushBack(T&& value)\<close>.\<close>

definition PushBack_copy ::
  "'a elem_type \<Rightarrow> 'a \<Rightarrow> 'a Vector \<times> heap \<Rightarrow> ('a Vector \<times> heap, 'a Vector \<times> heap) outcome" where
  "PushBack_copy T val s =
     (case EmplaceBack T (copy_construct T val) s of
        Fault \<Rightarrow> Fault
      | Thrown e s1 \<Rightarrow> Thrown e s1
      | Returned (r, s1) \<Rightarrow> Returned s1)"

definition PushBack_move ::
  "'a elem_type \<Rightarrow> 'a \<Rightarrow> 'a Vector \<times> heap \<Rightarrow> ('a Vector \<times> heap, 'a Vector \<times> heap) outcome" where
  "PushBack_move T val s =
     (case EmplaceBack T (map_option fst (move_construct T val)) s of
        Fault \<Rightarrow> Fault
      | Thrown e s1 \<Rightarrow> Thrown e s1
      | Returned (r, s1) \<Rightarrow> Returned s1)"

definition PopBack ::
  "'a Vector \<times> heap \<Rightarrow> ('a Vector \<times> heap, 'a Vector \<times> heap) outcome" where
  "PopBack s =
     (case s of (v, h) \<Rightarrow>
        if size_m v > 0 then
          (case destroy_at (GetAddress v) (size_m v - 1) of None \<Rightarrow> Fault
           | Some b \<Rightarrow> Returned ((with_slots v b)\<lparr>size_m := size_m v - 1\<rparr>, h))
        else Returned (v, h))"

section \<open>Insertion and erasure\<close>

text \<open>
  \<open>Emplace(pos, args...)\<close>, with \<open>arg\<close> as in \<open>EmplaceBack\<close>. In the branch that
  reallocates, \<open>size_ - index\<close> is a \<open>size_t\<close>: for \<open>index > size_\<close> it wraps around and
  the migration leaves the block, which is \<open>Fault\<close>.

  As in \<open>EmplaceBack\<close>, the caller's arguments are objects outside the vector. A call
  whose argument refers to an element of the vector itself, such as
  \<open>Insert(begin(), v[2])\<close>, is outside the model: in the branch with spare capacity
  the code builds the new element only after the shift, from whatever the reference
  then designates (\<open>[1, 2, 3]\<close> of capacity 4 becomes \<open>[2, 1, 2, 3]\<close>), while \<open>arg\<close>
  is fixed before the call.
\<close>

definition Emplace ::
  "'a elem_type \<Rightarrow> nat \<Rightarrow> 'a option \<Rightarrow> 'a Vector \<times> heap \<Rightarrow>
     (nat \<times> 'a Vector \<times> heap, 'a Vector \<times> heap) outcome" where
  "Emplace T pos arg s =
     (case s of (v, h) \<Rightarrow>
        let index = pos - Vector_begin v;
            place = (\<lambda>b.
              case RawMemory_plus (data_m v) index of None \<Rightarrow> Fault
              | Some q \<Rightarrow>
                (case arg of None \<Rightarrow> Thrown elem_exception (with_slots v b, h)
                 | Some x \<Rightarrow>
                   (case construct_at b q x of None \<Rightarrow> Fault
                    | Some b1 \<Rightarrow>
                        Returned (q, (with_slots v b1)\<lparr>size_m := size_m v + 1\<rparr>, h))))
        in
        if size_m v \<noteq> Capacity v then
          (if size_m v \<noteq> 0 then
             (case RawMemory_plus (data_m v) (size_m v) of None \<Rightarrow> Fault
              | Some p \<Rightarrow>
                (case rd (GetAddress v) (size_m v - 1) of None \<Rightarrow> Fault
                 | Some x \<Rightarrow>
                   (case move_construct T x of None \<Rightarrow> Thrown elem_exception (v, h)
                    | Some (y, r) \<Rightarrow>
                      (case construct_at ((GetAddress v)[size_m v - 1 := Some r]) p y of
                         None \<Rightarrow> Fault
                       | Some b1 \<Rightarrow>
                         (case move_backward T b1 (Vector_begin v + index) (size_m v)
                                 (size_m v + 1) of
                            Fault \<Rightarrow> Fault
                          | Thrown e b2 \<Rightarrow>
                            (case destroy_n b2 (size_m v) 1 of None \<Rightarrow> Fault
                             | Some b3 \<Rightarrow> Thrown e (with_slots v b3, h))
                          | Returned b2 \<Rightarrow>
                            (case destroy_at b2 (Vector_begin v + index) of None \<Rightarrow> Fault
                             | Some b3 \<Rightarrow> place b3))))))
           else place (GetAddress v))
        else
          (case RawMemory_ctor (if size_m v = 0 then 1 else size_m v * 2) h of
             None \<Rightarrow> Thrown bad_alloc (v, h)
           | Some (new_data, h1) \<Rightarrow>
             (case RawMemory_plus new_data index of None \<Rightarrow> Fault
              | Some q \<Rightarrow>
                (case arg of None \<Rightarrow> Thrown elem_exception (v, RawMemory_dtor new_data h1)
                 | Some x \<Rightarrow>
                   (case construct_at (buffer_m new_data) q x of None \<Rightarrow> Fault
                    | Some nb \<Rightarrow>
                      let finish = (\<lambda>v1 dst.
                            case release_old v1 (new_data\<lparr>buffer_m := dst\<rparr>) h1 of
                              Fault \<Rightarrow> Fault
                            | Thrown e s1 \<Rightarrow> Thrown e s1
                            | Returned (v2, h2) \<Rightarrow>
                                Returned (q, v2\<lparr>size_m := size_m v2 + 1\<rparr>, h2));
                          caught = (\<lambda>e dst.
                            case destroy_n dst index 1 of None \<Rightarrow> Fault
                            | Some dst1 \<Rightarrow>
                                Thrown e (v, RawMemory_dtor (new_data\<lparr>buffer_m := dst1\<rparr>) h1))
                      in
                      if index \<le> size_m v then
                        (if is_nothrow_move_constructible T \<or> \<not> is_copy_constructible T then
                           (case uninitialized_move_n T (GetAddress v) 0 index nb 0 of
                              Fault \<Rightarrow> Fault
                            | Thrown e (src, dst) \<Rightarrow>
                                Thrown e (with_slots v src,
                                          RawMemory_dtor (new_data\<lparr>buffer_m := dst\<rparr>) h1)
                            | Returned (src1, dst1) \<Rightarrow>
                              (case uninitialized_move_n T src1 index (size_m v - index)
                                      dst1 (index + 1) of
                                 Fault \<Rightarrow> Fault
                               | Thrown e (src, dst) \<Rightarrow>
                                   Thrown e (with_slots v src,
                                             RawMemory_dtor (new_data\<lparr>buffer_m := dst\<rparr>) h1)
                               | Returned (src2, dst2) \<Rightarrow> finish (with_slots v src2) dst2))
                         else
                           (case uninitialized_copy_n T (GetAddress v) 0 index nb 0 of
                              Fault \<Rightarrow> Fault
                            | Thrown e dst \<Rightarrow> caught e dst
                            | Returned dst1 \<Rightarrow>
                              (case uninitialized_copy_n T (GetAddress v) index
                                      (size_m v - index) dst1 (index + 1) of
                                 Fault \<Rightarrow> Fault
                               | Thrown e dst \<Rightarrow> caught e dst
                               | Returned dst2 \<Rightarrow> finish v dst2)))
                      else Fault)))))"

text \<open>\<open>Insert(pos, const T& value)\<close> and \<open>Insert(pos, T&& value)\<close>.\<close>

definition Insert_copy ::
  "'a elem_type \<Rightarrow> nat \<Rightarrow> 'a \<Rightarrow> 'a Vector \<times> heap \<Rightarrow>
     (nat \<times> 'a Vector \<times> heap, 'a Vector \<times> heap) outcome" where
  "Insert_copy T pos val s = Emplace T pos (copy_construct T val) s"

definition Insert_move ::
  "'a elem_type \<Rightarrow> nat \<Rightarrow> 'a \<Rightarrow> 'a Vector \<times> heap \<Rightarrow>
     (nat \<times> 'a Vector \<times> heap, 'a Vector \<times> heap) outcome" where
  "Insert_move T pos val s = Emplace T pos (map_option fst (move_construct T val)) s"

definition Erase ::
  "'a elem_type \<Rightarrow> nat \<Rightarrow> 'a Vector \<times> heap \<Rightarrow>
     (nat \<times> 'a Vector \<times> heap, 'a Vector \<times> heap) outcome" where
  "Erase T pos s =
     (case s of (v, h) \<Rightarrow>
        let index = pos - Vector_begin v in
        (case std_move T (GetAddress v) (Vector_begin v + index + 1) (Vector_end v)
                (Vector_begin v + index) of
           Fault \<Rightarrow> Fault
         | Thrown e b \<Rightarrow> Thrown e (with_slots v b, h)
         | Returned b \<Rightarrow>
           (case PopBack (with_slots v b, h) of
              Fault \<Rightarrow> Fault
            | Thrown e s1 \<Rightarrow> Thrown e s1
            | Returned (v1, h1) \<Rightarrow> Returned (Vector_begin v1 + index, v1, h1))))"

section \<open>Assignment\<close>

text \<open>
  Both assignment operators compare the addresses of their operands
  (\<open>this != &rhs\<close>), so the vectors live in a store, at addresses.
\<close>

type_synonym 'a store = "nat \<Rightarrow> 'a Vector"

text \<open>\<open>operator=(const Vector& rhs)\<close> of the vector at address \<open>this\<close>.\<close>

definition assign_copy ::
  "'a elem_type \<Rightarrow> nat \<Rightarrow> nat \<Rightarrow> 'a store \<times> heap \<Rightarrow>
     ('a store \<times> heap, 'a store \<times> heap) outcome" where
  "assign_copy T this rhs s =
     (case s of (st, h) \<Rightarrow>
        if this \<noteq> rhs then
          (if size_m (st rhs) > capacity_m (data_m (st this)) then
             (case Vector_copy T (st rhs) h of
                Fault \<Rightarrow> Fault
              | Thrown e h1 \<Rightarrow> Thrown e (st, h1)
              | Returned (rhs_copy, h1) \<Rightarrow>
                (case Swap (st this) rhs_copy of (t, rc) \<Rightarrow>
                   (case Vector_dtor rc h1 of None \<Rightarrow> Fault
                    | Some h2 \<Rightarrow> Returned (st(this := t), h2))))
           else
             (if size_m (st this) > size_m (st rhs) then
                (case std_copy T (GetAddress (st rhs)) 0 (size_m (st rhs))
                        (GetAddress (st this)) 0 of
                   Fault \<Rightarrow> Fault
                 | Thrown e b \<Rightarrow> Thrown e (st(this := with_slots (st this) b), h)
                 | Returned b \<Rightarrow>
                   (case destroy_n b (size_m (st rhs)) (size_m (st this) - size_m (st rhs)) of
                      None \<Rightarrow> Fault
                    | Some b1 \<Rightarrow>
                        Returned (st(this := (with_slots (st this) b1)
                                               \<lparr>size_m := size_m (st rhs)\<rparr>), h)))
              else
                (case std_copy T (GetAddress (st rhs)) 0 (size_m (st this))
                        (GetAddress (st this)) 0 of
                   Fault \<Rightarrow> Fault
                 | Thrown e b \<Rightarrow> Thrown e (st(this := with_slots (st this) b), h)
                 | Returned b \<Rightarrow>
                   (case uninitialized_copy_n T (GetAddress (st rhs)) (size_m (st this))
                           (size_m (st rhs) - size_m (st this)) b (size_m (st this)) of
                      Fault \<Rightarrow> Fault
                    | Thrown e b1 \<Rightarrow> Thrown e (st(this := with_slots (st this) b1), h)
                    | Returned b1 \<Rightarrow>
                        Returned (st(this := (with_slots (st this) b1)
                                               \<lparr>size_m := size_m (st rhs)\<rparr>), h)))))
        else Returned (st, h))"

text \<open>\<open>operator=(Vector&& rhs)\<close> of the vector at address \<open>this\<close>; it is \<open>noexcept\<close>.\<close>

definition assign_move :: "nat \<Rightarrow> nat \<Rightarrow> 'a store \<times> heap \<Rightarrow> 'a store \<times> heap" where
  "assign_move this rhs s =
     (case s of (st, h) \<Rightarrow>
        if this \<noteq> rhs then
          (case Swap (st this) (st rhs) of (t, r) \<Rightarrow> (st(this := t, rhs := r), h))
        else (st, h))"

section \<open>The class invariant and the observable contents\<close>

text \<open>
  The block has \<open>capacity_\<close> slots, \<open>size_\<close> is at most that, the first \<open>size_\<close>
  slots hold objects and the other slots hold none.
\<close>

definition Vector_inv :: "'a Vector \<Rightarrow> bool" where
  "Vector_inv v =
     (length (GetAddress v) = Capacity v \<and> size_m v \<le> Capacity v \<and>
      list_all (\<lambda>c. c \<noteq> None) (take (size_m v) (GetAddress v)) \<and>
      list_all (\<lambda>c. c = None) (drop (size_m v) (GetAddress v)))"

text \<open>Iteration from \<open>begin()\<close> to \<open>end()\<close>: what each slot in the range holds.\<close>

definition iterate :: "'a Vector \<Rightarrow> 'a option list" where
  "iterate v = map (rd (GetAddress v)) [Vector_begin v ..< Vector_end v]"

section \<open>Calls of the public mutating operations\<close>

text \<open>
  The operations that change one buffer, as values, so that a statement can range over
  them. \<open>run_call\<close> runs one and keeps the state it leaves, not the returned iterator or
  reference.
\<close>

datatype 'a call =
    Call_Reserve nat
  | Call_Resize nat
  | Call_PushBack_copy 'a
  | Call_PushBack_move 'a
  | Call_EmplaceBack "'a option"
  | Call_Insert_copy nat 'a
  | Call_Insert_move nat 'a
  | Call_Emplace nat "'a option"
  | Call_Erase nat
  | Call_PopBack

definition drop_result :: "('r \<times> 's, 't) outcome \<Rightarrow> ('s, 't) outcome" where
  "drop_result out =
     (case out of Returned (r, s) \<Rightarrow> Returned s | Thrown e s \<Rightarrow> Thrown e s | Fault \<Rightarrow> Fault)"

fun run_call ::
  "'a elem_type \<Rightarrow> 'a call \<Rightarrow> 'a Vector \<times> heap \<Rightarrow> ('a Vector \<times> heap, 'a Vector \<times> heap) outcome" where
  "run_call T (Call_Reserve n) s = Reserve T n s"
| "run_call T (Call_Resize n) s = Resize T n s"
| "run_call T (Call_PushBack_copy x) s = PushBack_copy T x s"
| "run_call T (Call_PushBack_move x) s = PushBack_move T x s"
| "run_call T (Call_EmplaceBack arg) s = drop_result (EmplaceBack T arg s)"
| "run_call T (Call_Insert_copy pos x) s = drop_result (Insert_copy T pos x s)"
| "run_call T (Call_Insert_move pos x) s = drop_result (Insert_move T pos x s)"
| "run_call T (Call_Emplace pos arg) s = drop_result (Emplace T pos arg s)"
| "run_call T (Call_Erase pos) s = drop_result (Erase T pos s)"
| "run_call T Call_PopBack s = PopBack s"

text \<open>The appends, the insertions, and the growth or insertion attempts.\<close>

fun is_append :: "'a call \<Rightarrow> bool" where
  "is_append (Call_PushBack_copy x) = True"
| "is_append (Call_PushBack_move x) = True"
| "is_append (Call_EmplaceBack arg) = True"
| "is_append c = False"

fun is_insertion :: "'a call \<Rightarrow> bool" where
  "is_insertion (Call_Insert_copy pos x) = True"
| "is_insertion (Call_Insert_move pos x) = True"
| "is_insertion (Call_Emplace pos arg) = True"
| "is_insertion c = False"

fun is_reserve :: "'a call \<Rightarrow> bool" where
  "is_reserve (Call_Reserve n) = True"
| "is_reserve c = False"

text \<open>
  A sequence of calls, one after the other, up to the first that does not return; and
  the value that an append adds to the buffer.
\<close>

fun run_calls ::
  "'a elem_type \<Rightarrow> 'a call list \<Rightarrow> 'a Vector \<times> heap \<Rightarrow>
     ('a Vector \<times> heap, 'a Vector \<times> heap) outcome" where
  "run_calls T [] s = Returned s"
| "run_calls T (c # cs) s =
     (case run_call T c s of
        Returned s1 \<Rightarrow> run_calls T cs s1
      | Thrown e s1 \<Rightarrow> Thrown e s1
      | Fault \<Rightarrow> Fault)"

fun appended :: "'a call \<Rightarrow> 'a option" where
  "appended (Call_PushBack_copy x) = Some x"
| "appended (Call_PushBack_move x) = Some x"
| "appended (Call_EmplaceBack arg) = arg"
| "appended c = None"

text \<open>
  What the constructor of the new element does in an append (\<open>None\<close> when it throws),
  and whether the migration of an element of value \<open>x\<close> to a new block goes without an
  exception. An append is quiet when its constructor builds the element and this
  element can later be migrated.
\<close>

fun append_arg :: "'a elem_type \<Rightarrow> 'a call \<Rightarrow> 'a option" where
  "append_arg T (Call_PushBack_copy x) = copy_construct T x"
| "append_arg T (Call_PushBack_move x) = map_option fst (move_construct T x)"
| "append_arg T (Call_EmplaceBack arg) = arg"
| "append_arg T c = None"

definition relocates :: "'a elem_type \<Rightarrow> 'a \<Rightarrow> bool" where
  "relocates T x =
     (if is_nothrow_move_constructible T \<or> \<not> is_copy_constructible T
      then move_construct T x \<noteq> None else copy_construct T x \<noteq> None)"

definition append_quiet :: "'a elem_type \<Rightarrow> 'a call \<Rightarrow> bool" where
  "append_quiet T c = (case append_arg T c of None \<Rightarrow> False | Some x \<Rightarrow> relocates T x)"

text \<open>
  The move assignments of \<open>Erase\<close> at \<open>pos\<close> on the slots \<open>s\<close>: the one onto slot \<open>j\<close>
  takes the object of slot \<open>j + 1\<close>; its target is the erased element for \<open>j = pos\<close> and
  an object that the step before has moved from otherwise.
\<close>

definition shift_throws_at :: "'a elem_type \<Rightarrow> 'a slots \<Rightarrow> nat \<Rightarrow> nat \<Rightarrow> bool" where
  "shift_throws_at T s pos j =
     (case rd s j of None \<Rightarrow> False
      | Some y \<Rightarrow>
        (case rd s (Suc j) of None \<Rightarrow> False
         | Some x \<Rightarrow> move_assign_throws T (if j = pos then y else moved_from T y) x))"

text \<open>
  An insertion that shifts elements in place: the buffer is neither empty nor full.
\<close>

definition shifts_in_place :: "'a call \<Rightarrow> 'a Vector \<Rightarrow> bool" where
  "shifts_in_place c v = (is_insertion c \<and> size_m v \<noteq> 0 \<and> size_m v \<noteq> Capacity v)"

section \<open>Element types and buffers used as examples\<close>

text \<open>An element type like \<open>int\<close>: nothing throws, a move is a copy.\<close>

definition int_type :: "int elem_type" where
  "int_type =
     \<lparr>is_nothrow_move_constructible = True, is_copy_constructible = True,
      copy_ctor_throws = (\<lambda>x. False), move_ctor_throws = (\<lambda>x. False),
      copy_assign_throws = (\<lambda>y x. False), move_assign_throws = (\<lambda>y x. False),
      moved_from = (\<lambda>x. x), value_init = Some 0\<rparr>"

text \<open>
  A move-only element type whose move constructor is not \<open>noexcept\<close> and throws for
  the value 2; a moved-from object holds 0.
\<close>

definition move_only_type :: "int elem_type" where
  "move_only_type =
     \<lparr>is_nothrow_move_constructible = False, is_copy_constructible = False,
      copy_ctor_throws = (\<lambda>x. False), move_ctor_throws = (\<lambda>x. x = 2),
      copy_assign_throws = (\<lambda>y x. False), move_assign_throws = (\<lambda>y x. False),
      moved_from = (\<lambda>x. 0), value_init = Some 0\<rparr>"

text \<open>An element type whose move assignment throws when the source holds 1.\<close>

definition shift_throw_type :: "int elem_type" where
  "shift_throw_type =
     \<lparr>is_nothrow_move_constructible = True, is_copy_constructible = True,
      copy_ctor_throws = (\<lambda>x. False), move_ctor_throws = (\<lambda>x. False),
      copy_assign_throws = (\<lambda>y x. False), move_assign_throws = (\<lambda>y x. x = 1),
      moved_from = (\<lambda>x. x), value_init = Some 0\<rparr>"

text \<open>An element type like \<open>std::string\<close>: nothing throws, a moved-from string is empty.\<close>

definition string_type :: "string elem_type" where
  "string_type =
     \<lparr>is_nothrow_move_constructible = True, is_copy_constructible = True,
      copy_ctor_throws = (\<lambda>x. False), move_ctor_throws = (\<lambda>x. False),
      copy_assign_throws = (\<lambda>y x. False), move_assign_throws = (\<lambda>y x. False),
      moved_from = (\<lambda>x. []), value_init = Some []\<rparr>"

text \<open>The buffer that holds the values \<open>xs\<close> in a block of \<open>cap\<close> slots.\<close>

definition vec_of :: "'a list \<Rightarrow> nat \<Rightarrow> 'a Vector" where
  "vec_of xs cap =
     \<lparr>size_m = length xs,
      data_m = \<lparr>buffer_m = map Some xs @ replicate (cap - length xs) None, capacity_m = cap\<rparr>\<rparr>"

text \<open>A store with the vector \<open>a\<close> at address 0 and the vector \<open>b\<close> at address 1.\<close>

definition store2 :: "'a Vector \<Rightarrow> 'a Vector \<Rightarrow> 'a store" where
  "store2 a b = (\<lambda>p. if p = 0 then a else if p = 1 then b else Vector_default)"

text \<open>
  An element type that can be copied, whose copy constructor throws for the value 2 and
  whose move constructor is not \<open>noexcept\<close>.
\<close>

definition copy_throw_type :: "int elem_type" where
  "copy_throw_type =
     \<lparr>is_nothrow_move_constructible = False, is_copy_constructible = True,
      copy_ctor_throws = (\<lambda>x. x = 2), move_ctor_throws = (\<lambda>x. True),
      copy_assign_throws = (\<lambda>y x. False), move_assign_throws = (\<lambda>y x. False),
      moved_from = (\<lambda>x. 0), value_init = Some 0\<rparr>"

text \<open>
  An element type with a \<open>noexcept\<close> move constructor whose copy constructor throws for
  the value 2.
\<close>

definition throwing_copy_type :: "int elem_type" where
  "throwing_copy_type =
     \<lparr>is_nothrow_move_constructible = True, is_copy_constructible = True,
      copy_ctor_throws = (\<lambda>x. x = 2), move_ctor_throws = (\<lambda>x. False),
      copy_assign_throws = (\<lambda>y x. False), move_assign_throws = (\<lambda>y x. False),
      moved_from = (\<lambda>x. x), value_init = Some 0\<rparr>"

definition heap0 :: heap where
  "heap0 = \<lparr>allocs = 0, avail = 64\<rparr>"

section \<open>Facts about the primitives\<close>

lemma rd_Some_iff: "rd s i = Some x \<longleftrightarrow> i < length s \<and> s ! i = Some x"
  by (simp add: rd_def)

lemma rd_None_iff: "rd s i = None \<longleftrightarrow> (i < length s \<longrightarrow> s ! i = None)"
  by (simp add: rd_def)

lemma construct_at_Some_iff:
  "construct_at s i x = Some r \<longleftrightarrow> i < length s \<and> r = s[i := Some x]"
  by (auto simp: construct_at_def)

lemma destroy_at_Some_iff:
  "destroy_at s i = Some r \<longleftrightarrow> i < length s \<and> s ! i \<noteq> None \<and> r = s[i := None]"
  by (auto simp: destroy_at_def rd_def split: option.splits)

lemma copy_construct_Some_iff:
  "copy_construct T x = Some y \<longleftrightarrow> \<not> copy_ctor_throws T x \<and> y = x"
  by (auto simp: copy_construct_def)

lemma move_construct_Some_iff:
  "move_construct T x = Some (y, r) \<longleftrightarrow>
     \<not> (\<not> is_nothrow_move_constructible T \<and> move_ctor_throws T x) \<and> y = x \<and> r = moved_from T x"
  by (auto simp: move_construct_def)

lemma destroy_n_Some:
  "destroy_n s first n = Some r \<Longrightarrow>
     length r = length s \<and>
     (\<forall>j<length s. r ! j = (if first \<le> j \<and> j < first + n then None else s ! j))"
proof (induction n arbitrary: s first)
  case 0
  then show ?case by auto
next
  case (Suc n)
  from Suc.prems obtain s1 where s1: "destroy_at s first = Some s1"
    and rec: "destroy_n s1 (Suc first) n = Some r"
    by (auto split: option.splits)
  from s1 have eq: "s1 = s[first := None]" and lt: "first < length s"
    by (simp_all add: destroy_at_Some_iff)
  from Suc.IH[OF rec] eq lt show ?case
    by (auto simp: nth_list_update)
qed

lemma destroy_n_live:
  "first + n \<le> length s \<Longrightarrow> (\<forall>j. first \<le> j \<and> j < first + n \<longrightarrow> s ! j \<noteq> None) \<Longrightarrow>
     \<exists>r. destroy_n s first n = Some r"
proof (induction n arbitrary: s first)
  case 0
  then show ?case by simp
next
  case (Suc n)
  have d: "destroy_at s first = Some (s[first := None])"
    using Suc.prems by (simp add: destroy_at_Some_iff)
  have "\<exists>r. destroy_n (s[first := None]) (Suc first) n = Some r"
    using Suc.prems by (intro Suc.IH) (auto simp: nth_list_update)
  with d show ?case by simp
qed

lemma uninitialized_copy_n_Returned:
  "uninitialized_copy_n T src first n dst d = Returned r \<Longrightarrow>
     length r = length dst \<and>
     (\<forall>i<n. first + i < length src \<and> d + i < length dst \<and> src ! (first + i) \<noteq> None \<and>
             r ! (d + i) = src ! (first + i)) \<and>
     (\<forall>j<length dst. j < d \<or> d + n \<le> j \<longrightarrow> r ! j = dst ! j)"
proof (induction n arbitrary: first dst d)
  case 0
  then show ?case by simp
next
  case (Suc n)
  from Suc.prems obtain x where x: "rd src first = Some x" "\<not> copy_ctor_throws T x"
    and d: "d < length dst"
    and rec: "uninitialized_copy_n T src (Suc first) n (dst[d := Some x]) (Suc d) = Returned r"
    by (auto simp: copy_construct_def construct_at_def split: option.splits if_splits outcome.splits)
  note IH = Suc.IH[OF rec]
  from x have sx: "first < length src" "src ! first = Some x" by (simp_all add: rd_Some_iff)
  have len: "length r = length dst" using IH by simp
  have out: "\<forall>j<length dst. j < d \<or> d + Suc n \<le> j \<longrightarrow> r ! j = dst ! j"
    using IH by (auto simp: nth_list_update)
  have rd0: "r ! d = Some x" using IH d by (auto simp: nth_list_update)
  have "first + i < length src \<and> d + i < length dst \<and> src ! (first + i) \<noteq> None \<and>
             r ! (d + i) = src ! (first + i)" if "i < Suc n" for i
  proof (cases i)
    case 0
    then show ?thesis using sx d rd0 by simp
  next
    case (Suc k)
    with that have "k < n" by simp
    with IH Suc show ?thesis by simp
  qed
  with len out show ?case by blast
qed

section \<open>Size and capacity after each operation\<close>

lemma RawMemory_ctor_Some:
  "RawMemory_ctor n h = Some (m, h1) \<Longrightarrow>
     capacity_m m = n \<and> buffer_m m = replicate n None \<and>
     allocs h1 = (if n = 0 then allocs h else Suc (allocs h))"
  by (auto simp: RawMemory_ctor_def Allocate_def split: if_splits)

lemma release_old_Returned:
  "release_old v nd h = Returned (v', h') \<Longrightarrow>
     v' = v\<lparr>data_m := (data_m v)\<lparr>buffer_m := buffer_m nd, capacity_m := capacity_m nd\<rparr>\<rparr>"
  by (auto simp: release_old_def RawMemory_Swap_def split: option.splits)

lemma release_old_not_Thrown: "release_old v nd h \<noteq> Thrown e p"
  by (auto simp: release_old_def RawMemory_Swap_def split: option.splits)

lemma uninitialized_move_n_nothrow:
  "is_nothrow_move_constructible T \<Longrightarrow> uninitialized_move_n T src first n dst d \<noteq> Thrown e p"
  by (induction n arbitrary: src first dst d p)
     (auto simp: move_construct_def split: option.splits outcome.splits)

lemma migrate_Returned_shape:
  "migrate T v nd h = Returned (v', h') \<Longrightarrow> size_m v' = size_m v \<and> Capacity v' = capacity_m nd"
  by (auto simp: migrate_def with_slots_def Capacity_def
           split: if_splits outcome.splits dest!: release_old_Returned)

lemma migrate_Thrown_shape:
  "migrate T v nd h = Thrown e (v', h') \<Longrightarrow>
     size_m v' = size_m v \<and> Capacity v' = Capacity v \<and>
     (is_nothrow_move_constructible T \<or> is_copy_constructible T \<longrightarrow> v' = v)"
  by (auto simp: migrate_def with_slots_def Capacity_def release_old_not_Thrown
                 uninitialized_move_n_nothrow
           split: if_splits outcome.splits)

lemma Reserve_Returned_shape:
  "Reserve T n (v, h) = Returned (v', h') \<Longrightarrow>
     size_m v' = size_m v \<and> Capacity v' = max n (Capacity v)"
  by (auto simp: Reserve_def Capacity_def max_def
           split: if_splits option.splits dest!: migrate_Returned_shape RawMemory_ctor_Some)

lemma Reserve_Thrown_shape:
  "Reserve T n (v, h) = Thrown e (v', h') \<Longrightarrow>
     size_m v' = size_m v \<and> Capacity v' = Capacity v \<and>
     (is_nothrow_move_constructible T \<or> is_copy_constructible T \<longrightarrow> v' = v)"
  by (auto simp: Reserve_def split: if_splits option.splits dest!: migrate_Thrown_shape)

lemma EmplaceBack_Thrown_shape:
  "EmplaceBack T arg (v, h) = Thrown e (v', h') \<Longrightarrow>
     size_m v' = size_m v \<and> Capacity v' = Capacity v \<and>
     (is_nothrow_move_constructible T \<or> is_copy_constructible T \<longrightarrow> v' = v)"
  by (auto simp: EmplaceBack_def Let_def split: if_splits option.splits outcome.splits
           dest!: migrate_Thrown_shape)

lemma EmplaceBack_Returned_shape:
  "EmplaceBack T arg (v, h) = Returned (r, v', h') \<Longrightarrow>
     size_m v' = Suc (size_m v) \<and>
     Capacity v' = (if size_m v < Capacity v then Capacity v
                    else if size_m v = 0 then 1 else size_m v * 2)"
  by (auto simp: EmplaceBack_def Let_def with_slots_def Capacity_def
           split: if_splits option.splits outcome.splits
           dest!: migrate_Returned_shape RawMemory_ctor_Some)


lemma with_slots_same [simp]: "with_slots v (GetAddress v) = v"
  by (simp add: with_slots_def GetAddress_def)

lemma Emplace_Thrown_shape:
  "Emplace T pos arg (v, h) = Thrown e (v', h') \<Longrightarrow>
     size_m v' = size_m v \<and> Capacity v' = Capacity v \<and>
     ((is_nothrow_move_constructible T \<or> is_copy_constructible T) \<and>
      (size_m v = Capacity v \<or> size_m v = 0) \<longrightarrow> v' = v)"
  by (auto simp: Emplace_def Let_def with_slots_def Capacity_def GetAddress_def
                 release_old_not_Thrown uninitialized_move_n_nothrow
           split: if_splits option.splits outcome.splits prod.splits)

lemma Emplace_Returned_shape:
  "Emplace T pos arg (v, h) = Returned (r, v', h') \<Longrightarrow>
     size_m v' = Suc (size_m v) \<and>
     Capacity v' = (if size_m v \<noteq> Capacity v then Capacity v
                    else if size_m v = 0 then 1 else size_m v * 2)"
  by (auto simp: Emplace_def Let_def with_slots_def Capacity_def
           split: if_splits option.splits outcome.splits prod.splits
           dest!: release_old_Returned RawMemory_ctor_Some)

lemma PopBack_shape:
  "PopBack (v, h) = Returned (v', h') \<or> PopBack (v, h) = Thrown e (v', h') \<Longrightarrow>
     Capacity v' = Capacity v \<and> h' = h"
  by (auto simp: PopBack_def with_slots_def Capacity_def split: if_splits option.splits)

lemma Erase_shape:
  "Erase T pos (v, h) = Returned (r, v', h') \<or> Erase T pos (v, h) = Thrown e (v', h') \<Longrightarrow>
     Capacity v' = Capacity v \<and> h' = h"
  by (auto simp: Erase_def Let_def PopBack_def with_slots_def Capacity_def
           split: if_splits option.splits outcome.splits)

lemma Resize_shape:
  "Resize T n (v, h) = Returned (v', h') \<or> Resize T n (v, h) = Thrown e (v', h') \<Longrightarrow>
     Capacity v \<le> Capacity v'"
  by (auto simp: Resize_def with_slots_def Capacity_def
           split: if_splits option.splits outcome.splits
           dest!: Reserve_Returned_shape Reserve_Thrown_shape)

lemma Vector_copy_Returned_shape:
  "Vector_copy T other h = Returned (c, h') \<Longrightarrow>
     size_m c = size_m other \<and> Capacity c = size_m other"
  by (auto simp: Vector_copy_def Capacity_def split: option.splits outcome.splits
           dest!: RawMemory_ctor_Some)

lemma Swap_eq: "Swap v other = (other, v)"
  by (cases v; cases other) (simp add: Swap_def RawMemory_Swap_def)

lemma assign_copy_capacity:
  "assign_copy T a b (st, h) = Returned (st', h') \<or> assign_copy T a b (st, h) = Thrown e (st', h')
     \<Longrightarrow> Capacity (st a) \<le> Capacity (st' a)"
  by (auto simp: assign_copy_def Swap_eq with_slots_def Capacity_def
           split: if_splits option.splits outcome.splits
           dest!: Vector_copy_Returned_shape)

lemma drop_result_Returned:
  "drop_result out = Returned s \<longleftrightarrow> (\<exists>r. out = Returned (r, s))"
  by (auto simp: drop_result_def split: outcome.splits)

lemma drop_result_Thrown:
  "drop_result out = Thrown e s \<longleftrightarrow> out = Thrown e s"
  by (auto simp: drop_result_def split: outcome.splits)

lemma PushBack_copy_Returned:
  "PushBack_copy T x s = Returned s1 \<longleftrightarrow> (\<exists>r. EmplaceBack T (copy_construct T x) s = Returned (r, s1))"
  by (auto simp: PushBack_copy_def split: outcome.splits)

lemma PushBack_copy_Thrown:
  "PushBack_copy T x s = Thrown e s1 \<longleftrightarrow> EmplaceBack T (copy_construct T x) s = Thrown e s1"
  by (auto simp: PushBack_copy_def split: outcome.splits)

lemma PushBack_move_Returned:
  "PushBack_move T x s = Returned s1 \<longleftrightarrow>
     (\<exists>r. EmplaceBack T (map_option fst (move_construct T x)) s = Returned (r, s1))"
  by (auto simp: PushBack_move_def split: outcome.splits)

lemma PushBack_move_Thrown:
  "PushBack_move T x s = Thrown e s1 \<longleftrightarrow>
     EmplaceBack T (map_option fst (move_construct T x)) s = Thrown e s1"
  by (auto simp: PushBack_move_def split: outcome.splits)

lemmas call_outcomes =
  drop_result_Returned drop_result_Thrown PushBack_copy_Returned PushBack_copy_Thrown
  PushBack_move_Returned PushBack_move_Thrown Insert_copy_def Insert_move_def

lemma run_call_Thrown_shape:
  assumes "run_call T c (v, h) = Thrown e (v', h')"
      and "is_reserve c \<or> is_append c \<or> is_insertion c"
  shows "size_m v' = size_m v \<and> Capacity v' = Capacity v \<and>
         ((is_nothrow_move_constructible T \<or> is_copy_constructible T) \<and>
          \<not> shifts_in_place c v \<longrightarrow> v' = v)"
  using assms
  by (cases c)
     (auto simp: call_outcomes shifts_in_place_def
           dest!: Reserve_Thrown_shape EmplaceBack_Thrown_shape Emplace_Thrown_shape)

lemma run_call_capacity_mono:
  assumes "run_call T c (v, h) = Returned (v', h') \<or> run_call T c (v, h) = Thrown e (v', h')"
  shows "Capacity v \<le> Capacity v'"
proof (cases c)
  case (Call_Reserve n)
  with assms show ?thesis
    by (auto dest!: Reserve_Returned_shape Reserve_Thrown_shape)
next
  case (Call_Resize n)
  with assms show ?thesis using Resize_shape[of T n v h v' h' e] by auto
next
  case (Call_PushBack_copy x)
  with assms show ?thesis
    by (auto simp: call_outcomes dest!: EmplaceBack_Returned_shape EmplaceBack_Thrown_shape
             split: if_splits)
next
  case (Call_PushBack_move x)
  with assms show ?thesis
    by (auto simp: call_outcomes dest!: EmplaceBack_Returned_shape EmplaceBack_Thrown_shape
             split: if_splits)
next
  case (Call_EmplaceBack arg)
  with assms show ?thesis
    by (auto simp: call_outcomes dest!: EmplaceBack_Returned_shape EmplaceBack_Thrown_shape
             split: if_splits)
next
  case (Call_Insert_copy pos x)
  with assms show ?thesis
    by (auto simp: call_outcomes dest!: Emplace_Returned_shape Emplace_Thrown_shape
             split: if_splits)
next
  case (Call_Insert_move pos x)
  with assms show ?thesis
    by (auto simp: call_outcomes dest!: Emplace_Returned_shape Emplace_Thrown_shape
             split: if_splits)
next
  case (Call_Emplace pos arg)
  with assms show ?thesis
    by (auto simp: call_outcomes dest!: Emplace_Returned_shape Emplace_Thrown_shape
             split: if_splits)
next
  case (Call_Erase pos)
  with assms show ?thesis
    using Erase_shape[of T pos v h _ v' h' e] by (auto simp: call_outcomes)
next
  case Call_PopBack
  with assms show ?thesis using PopBack_shape[of v h v' h' e] by auto
qed

lemma run_call_doubles:
  assumes "run_call T c (v, h) = Returned (v', h')"
      and "is_append c \<or> is_insertion c" and "size_m v = Capacity v"
  shows "Capacity v' = (if Capacity v = 0 then 1 else 2 * Capacity v)"
  using assms
  by (cases c)
     (auto simp: call_outcomes dest!: EmplaceBack_Returned_shape Emplace_Returned_shape
           split: if_splits)

lemma vec_of_simps:
  "size_m (vec_of xs cap) = length xs" "capacity_m (data_m (vec_of xs cap)) = cap"
  "Capacity (vec_of xs cap) = cap"
  by (simp_all add: vec_of_def Capacity_def)

section \<open>The contents after each operation\<close>

lemma Vector_inv_iff:
  "Vector_inv v \<longleftrightarrow>
     length (GetAddress v) = Capacity v \<and> size_m v \<le> Capacity v \<and>
     (\<forall>i<Capacity v. (GetAddress v ! i = None) = (size_m v \<le> i))"
proof -
  have "list_all (\<lambda>c. c \<noteq> None) (take n xs) \<and> list_all (\<lambda>c. c = None) (drop n xs) \<longleftrightarrow>
        (\<forall>i<length xs. (xs ! i = None) = (n \<le> i))" if "n \<le> length xs"
    for n and xs :: "'a option list"
  proof
    assume a: "list_all (\<lambda>c. c \<noteq> None) (take n xs) \<and> list_all (\<lambda>c. c = None) (drop n xs)"
    show "\<forall>i<length xs. (xs ! i = None) = (n \<le> i)"
    proof (intro allI impI)
      fix i assume i: "i < length xs"
      show "(xs ! i = None) = (n \<le> i)"
      proof (cases "i < n")
        case True
        with a i that have "take n xs ! i \<noteq> None" by (simp add: list_all_length)
        with True show ?thesis by simp
      next
        case False
        then have "i - n < length (drop n xs)" using i by simp
        with a have "drop n xs ! (i - n) = None" by (simp add: list_all_length)
        with False that show ?thesis by simp
      qed
    qed
  next
    assume b: "\<forall>i<length xs. (xs ! i = None) = (n \<le> i)"
    have "take n xs ! k \<noteq> None" if "k < n" for k
      using b that \<open>n \<le> length xs\<close> by (simp add: not_le [symmetric])
    moreover have "drop n xs ! k = None" if "k < length xs - n" for k
      using b that \<open>n \<le> length xs\<close> by simp
    ultimately show "list_all (\<lambda>c. c \<noteq> None) (take n xs) \<and> list_all (\<lambda>c. c = None) (drop n xs)"
      using that by (simp add: list_all_length)
  qed
  then show ?thesis
    unfolding Vector_inv_def by (metis (no_types, lifting))
qed

lemma length_iterate [simp]: "length (iterate v) = size_m v"
  by (simp add: iterate_def Vector_begin_def Vector_end_def)

lemma nth_iterate: "i < size_m v \<Longrightarrow> iterate v ! i = rd (GetAddress v) i"
  by (simp add: iterate_def Vector_begin_def Vector_end_def)

lemma uninitialized_move_n_Returned:
  "uninitialized_move_n T src first n dst d = Returned (src', dst') \<Longrightarrow>
     length dst' = length dst \<and> length src' = length src \<and>
     (\<forall>i<n. first + i < length src \<and> d + i < length dst \<and> src ! (first + i) \<noteq> None \<and>
             dst' ! (d + i) = src ! (first + i) \<and> src' ! (first + i) \<noteq> None) \<and>
     (\<forall>j<length dst. j < d \<or> d + n \<le> j \<longrightarrow> dst' ! j = dst ! j) \<and>
     (\<forall>j<length src. j < first \<or> first + n \<le> j \<longrightarrow> src' ! j = src ! j)"
proof (induction n arbitrary: src first dst d)
  case 0
  then show ?case by simp
next
  case (Suc n)
  from Suc.prems obtain x where x: "rd src first = Some x"
    and d: "d < length dst"
    and rec: "uninitialized_move_n T (src[first := Some (moved_from T x)]) (Suc first) n
                (dst[d := Some x]) (Suc d) = Returned (src', dst')"
    by (auto simp: move_construct_def construct_at_def
             split: option.splits if_splits outcome.splits prod.splits)
  note IH = Suc.IH[OF rec]
  from x have sx: "first < length src" "src ! first = Some x" by (simp_all add: rd_Some_iff)
  have len: "length dst' = length dst" "length src' = length src" using IH by simp_all
  have outd: "\<forall>j<length dst. j < d \<or> d + Suc n \<le> j \<longrightarrow> dst' ! j = dst ! j"
    using IH by (auto simp: nth_list_update)
  have outs: "\<forall>j<length src. j < first \<or> first + Suc n \<le> j \<longrightarrow> src' ! j = src ! j"
    using IH by (auto simp: nth_list_update)
  have d0: "dst' ! d = Some x" using IH d by (auto simp: nth_list_update)
  have s0: "src' ! first = Some (moved_from T x)" using IH sx by (auto simp: nth_list_update)
  have "first + i < length src \<and> d + i < length dst \<and> src ! (first + i) \<noteq> None \<and>
        dst' ! (d + i) = src ! (first + i) \<and> src' ! (first + i) \<noteq> None" if "i < Suc n" for i
  proof (cases i)
    case 0
    then show ?thesis using sx d d0 s0 by simp
  next
    case (Suc k)
    with that have "k < n" by simp
    with IH Suc show ?thesis by (simp add: nth_list_update)
  qed
  with len outd outs show ?case by blast
qed


lemma GetAddress_simps [simp]:
  "GetAddress (with_slots v b) = b"
  "GetAddress (v\<lparr>size_m := n\<rparr>) = GetAddress v"
  "GetAddress (v\<lparr>data_m := m\<rparr>) = buffer_m m"
  by (simp_all add: GetAddress_def with_slots_def)

lemma Capacity_simps [simp]:
  "Capacity (with_slots v b) = Capacity v"
  "Capacity (v\<lparr>size_m := n\<rparr>) = Capacity v"
  "Capacity (v\<lparr>data_m := m\<rparr>) = capacity_m m"
  by (simp_all add: Capacity_def with_slots_def)

lemma size_m_with_slots [simp]: "size_m (with_slots v b) = size_m v"
  by (simp add: with_slots_def)

lemma migrate_Returned_contents:
  assumes "migrate T v nd h = Returned (v', h')"
  shows "size_m v' = size_m v \<and> Capacity v' = capacity_m nd \<and>
         length (GetAddress v') = length (buffer_m nd) \<and>
         (\<forall>i<size_m v. i < length (buffer_m nd) \<and> i < length (GetAddress v) \<and>
                        GetAddress v ! i \<noteq> None \<and> GetAddress v' ! i = GetAddress v ! i) \<and>
         (\<forall>j<length (buffer_m nd). size_m v \<le> j \<longrightarrow> GetAddress v' ! j = buffer_m nd ! j)"
proof (cases "is_nothrow_move_constructible T \<or> \<not> is_copy_constructible T")
  case True
  with assms obtain src dst where
    mv: "uninitialized_move_n T (GetAddress v) 0 (size_m v) (buffer_m nd) 0 = Returned (src, dst)"
    and rel: "release_old (with_slots v src) (nd\<lparr>buffer_m := dst\<rparr>) h = Returned (v', h')"
    by (auto simp: migrate_def split: outcome.splits)
  from release_old_Returned[OF rel]
  have v': "GetAddress v' = dst" "size_m v' = size_m v" "Capacity v' = capacity_m nd"
    by simp_all
  from uninitialized_move_n_Returned[OF mv] v' show ?thesis by simp
next
  case False
  with assms obtain dst where
    cp: "uninitialized_copy_n T (GetAddress v) 0 (size_m v) (buffer_m nd) 0 = Returned dst"
    and rel: "release_old v (nd\<lparr>buffer_m := dst\<rparr>) h = Returned (v', h')"
    by (auto simp: migrate_def split: outcome.splits)
  from release_old_Returned[OF rel]
  have v': "GetAddress v' = dst" "size_m v' = size_m v" "Capacity v' = capacity_m nd"
    by simp_all
  from uninitialized_copy_n_Returned[OF cp] v' show ?thesis by simp
qed

lemma RawMemory_index_Some:
  "RawMemory_index m i = Some x \<longleftrightarrow> i < capacity_m m \<and> i < length (buffer_m m) \<and> buffer_m m ! i = Some x"
  by (auto simp: RawMemory_index_def rd_def)

lemma EmplaceBack_Returned_slots:
  assumes inv: "Vector_inv v" and ret: "EmplaceBack T arg (v, h) = Returned (r, v', h')"
  shows "arg = Some r \<and> size_m v' = Suc (size_m v) \<and>
         length (GetAddress v') = Capacity v' \<and> size_m v < Capacity v' \<and>
         (\<forall>i<size_m v. GetAddress v' ! i = GetAddress v ! i) \<and>
         GetAddress v' ! size_m v = Some r \<and>
         (\<forall>j<Capacity v'. size_m v < j \<longrightarrow> GetAddress v' ! j = None)"
proof (cases "size_m v < Capacity v")
  case True
  with ret obtain x where arg: "arg = Some x"
    and v': "v' = (with_slots v ((GetAddress v)[size_m v := Some x]))\<lparr>size_m := Suc (size_m v)\<rparr>"
    and r: "RawMemory_index (data_m v') (size_m v) = Some r"
    by (auto simp: EmplaceBack_def Let_def RawMemory_plus_def construct_at_def
             split: option.splits if_splits)
  from inv have len: "length (GetAddress v) = Capacity v"
    and none: "\<forall>i<Capacity v. (GetAddress v ! i = None) = (size_m v \<le> i)"
    by (simp_all add: Vector_inv_iff)
  from r v' True len have "r = x"
    by (simp add: RawMemory_index_Some with_slots_def)
  with arg v' True len none show ?thesis by (auto simp: nth_list_update)
next
  case False
  let ?c = "if size_m v = 0 then 1 else size_m v * 2"
  from False ret obtain new_data h1 x s1 where
    ctor: "RawMemory_ctor ?c h = Some (new_data, h1)" and arg: "arg = Some x"
    and lt: "size_m v < length (buffer_m new_data)"
    and mig: "migrate T v (new_data\<lparr>buffer_m := (buffer_m new_data)[size_m v := Some x]\<rparr>) h1
                = Returned s1"
    and fin: "(let v2 = (fst s1)\<lparr>size_m := size_m (fst s1) + 1\<rparr>
               in (case RawMemory_index (data_m v2) (size_m v2 - 1) of None \<Rightarrow> Fault
                   | Some r \<Rightarrow> Returned (r, v2, snd s1))) = Returned (r, v', h')"
    by (auto simp: EmplaceBack_def Let_def RawMemory_plus_def construct_at_def
             split: option.splits if_splits outcome.splits prod.splits)
  obtain v1 h2 where s1: "s1 = (v1, h2)" by (cases s1)
  from RawMemory_ctor_Some[OF ctor]
  have nd: "capacity_m new_data = ?c" "buffer_m new_data = replicate ?c None" by simp_all
  note M = migrate_Returned_contents[OF mig[unfolded s1]]
  from fin s1 have v': "v' = v1\<lparr>size_m := Suc (size_m v1)\<rparr>"
    and r: "RawMemory_index (data_m v1) (size_m v1) = Some r"
    by (auto simp: Let_def split: option.splits)
  from M have sz: "size_m v1 = size_m v" and cap: "Capacity v1 = ?c"
    and len: "length (GetAddress v1) = ?c"
    using nd by simp_all
  have c_gt: "size_m v < ?c" by simp
  from M nd c_gt have at: "GetAddress v1 ! size_m v = Some x" by simp
  from r sz at have "r = x" by (simp add: RawMemory_index_Some GetAddress_def)
  moreover from M have "\<forall>i<size_m v. GetAddress v1 ! i = GetAddress v ! i" by simp
  moreover from M nd have "\<forall>j<?c. size_m v < j \<longrightarrow> GetAddress v1 ! j = None"
    by (auto simp: nth_list_update)
  ultimately show ?thesis using arg v' sz cap len at c_gt by simp
qed

lemma EmplaceBack_Returned_contents:
  assumes inv: "Vector_inv v" and ret: "EmplaceBack T arg (v, h) = Returned (r, v', h')"
  shows "arg = Some r \<and> Vector_inv v' \<and> size_m v' = Suc (size_m v) \<and>
         iterate v' = iterate v @ [Some r]"
proof -
  note S = EmplaceBack_Returned_slots[OF inv ret]
  from inv have len: "length (GetAddress v) = Capacity v" and le: "size_m v \<le> Capacity v"
    and none: "\<forall>i<Capacity v. (GetAddress v ! i = None) = (size_m v \<le> i)"
    by (simp_all add: Vector_inv_iff)
  have inv': "Vector_inv v'"
    unfolding Vector_inv_iff
  proof (intro conjI allI impI)
    show "length (GetAddress v') = Capacity v'" using S by simp
    show "size_m v' \<le> Capacity v'" using S by simp
    fix i assume i: "i < Capacity v'"
    show "(GetAddress v' ! i = None) = (size_m v' \<le> i)"
    proof (cases "i < size_m v")
      case True
      with S none le show ?thesis by simp
    next
      case False
      then consider "i = size_m v" | "size_m v < i" by linarith
      then show ?thesis using S i by cases auto
    qed
  qed
  have "iterate v' = iterate v @ [Some r]"
  proof (rule nth_equalityI)
    show "length (iterate v') = length (iterate v @ [Some r])" using S by simp
    fix i assume "i < length (iterate v')"
    then have i: "i < Suc (size_m v)" using S by simp
    show "iterate v' ! i = (iterate v @ [Some r]) ! i"
    proof (cases "i < size_m v")
      case True
      with S len le show ?thesis
        by (simp add: nth_iterate nth_append rd_def)
    next
      case False
      with i have "i = size_m v" by simp
      with S show ?thesis by (simp add: nth_iterate nth_append rd_def)
    qed
  qed
  with S inv' show ?thesis by simp
qed

lemma Vector_inv_default: "Vector_inv Vector_default"
  by (simp add: Vector_inv_def Vector_default_def RawMemory_default_def GetAddress_def Capacity_def)

lemma iterate_default: "iterate Vector_default = []"
  by (simp add: iterate_def Vector_default_def Vector_begin_def Vector_end_def)

lemma run_call_append_Returned:
  assumes "Vector_inv v" "is_append c" "run_call T c (v, h) = Returned (v', h')"
  shows "Vector_inv v' \<and> iterate v' = iterate v @ [appended c] \<and> appended c \<noteq> None"
proof (cases c)
  case (Call_PushBack_copy x)
  with assms obtain r where "EmplaceBack T (copy_construct T x) (v, h) = Returned (r, v', h')"
    by (auto simp: call_outcomes)
  from EmplaceBack_Returned_contents[OF assms(1) this] Call_PushBack_copy
  show ?thesis by (auto simp: copy_construct_Some_iff)
next
  case (Call_PushBack_move x)
  with assms obtain r where
    "EmplaceBack T (map_option fst (move_construct T x)) (v, h) = Returned (r, v', h')"
    by (auto simp: call_outcomes)
  from EmplaceBack_Returned_contents[OF assms(1) this] Call_PushBack_move
  show ?thesis by (auto simp: move_construct_def split: if_splits)
next
  case (Call_EmplaceBack arg)
  with assms obtain r where "EmplaceBack T arg (v, h) = Returned (r, v', h')"
    by (auto simp: call_outcomes)
  from EmplaceBack_Returned_contents[OF assms(1) this] Call_EmplaceBack
  show ?thesis by auto
qed (use assms in auto)

lemma run_calls_appends:
  assumes "Vector_inv v" "list_all is_append cs" "run_calls T cs (v, h) = Returned (v', h')"
  shows "Vector_inv v' \<and> iterate v' = iterate v @ map appended cs \<and>
         list_all (\<lambda>c. appended c \<noteq> None) cs"
  using assms
proof (induction cs arbitrary: v h)
  case Nil
  then show ?case by simp
next
  case (Cons c cs)
  from Cons.prems obtain v1 h1 where
    one: "run_call T c (v, h) = Returned (v1, h1)"
    and rest: "run_calls T cs (v1, h1) = Returned (v', h')"
    by (auto split: outcome.splits)
  from Cons.prems have c: "is_append c" and cs: "list_all is_append cs" by simp_all
  note A = run_call_append_Returned[OF Cons.prems(1) c one]
  from A have inv1: "Vector_inv v1" by simp
  from Cons.IH[OF inv1 cs rest] A show ?case by simp
qed

lemma Vector_index_iterate:
  assumes "Vector_inv v" "i < size_m v"
  shows "Vector_index v i = iterate v ! i"
  using assms
  by (simp add: Vector_index_def RawMemory_index_def nth_iterate Vector_inv_iff
                Capacity_def GetAddress_def)

lemma shift_throws_at_step:
  assumes "Suc d < length s" "Suc d \<le> j" "s ! Suc d = Some x"
  shows "shift_throws_at T (s[d := Some x, Suc d := Some (moved_from T x)]) (Suc d) j =
         shift_throws_at T s d j"
proof (cases "j = Suc d")
  case True
  with assms show ?thesis
    by (auto simp: shift_throws_at_def rd_def nth_list_update split: option.splits)
next
  case False
  with assms have "j \<noteq> d" "j \<noteq> Suc d" "Suc j \<noteq> d" "Suc j \<noteq> Suc d" by simp_all
  then show ?thesis
    by (auto simp: shift_throws_at_def rd_def split: option.splits)
qed

lemma move_loop_shift:
  assumes "Suc d + n \<le> length s" and "\<forall>j. d \<le> j \<and> j \<le> d + n \<longrightarrow> s ! j \<noteq> None"
  shows "case move_loop T s (Suc d) n d of
           Returned r \<Rightarrow>
             length r = length s \<and>
             (\<forall>j<length s. j < d \<or> d + n < j \<longrightarrow> r ! j = s ! j) \<and>
             (\<forall>j. d \<le> j \<and> j < d + n \<longrightarrow> r ! j = s ! Suc j) \<and>
             r ! (d + n) \<noteq> None \<and>
             (\<forall>j. d \<le> j \<and> j < d + n \<longrightarrow> \<not> shift_throws_at T s d j)
         | Thrown e r \<Rightarrow>
             e = elem_exception \<and> length r = length s \<and>
             (\<exists>j. d \<le> j \<and> j < d + n \<and> shift_throws_at T s d j \<and>
                  (\<forall>i. d \<le> i \<and> i < j \<longrightarrow> \<not> shift_throws_at T s d i \<and> r ! i = s ! Suc i) \<and>
                  (\<forall>i<length s. i < d \<or> j < i \<longrightarrow> r ! i = s ! i) \<and>
                  r ! j \<noteq> None)
         | Fault \<Rightarrow> False"
  using assms
proof (induction n arbitrary: s d)
  case 0
  then show ?case by auto
next
  case (Suc n)
  have "s ! Suc d \<noteq> None" "s ! d \<noteq> None"
    using Suc.prems(2) [rule_format, of "Suc d"] Suc.prems(2) [rule_format, of d] by simp_all
  then obtain x y where x: "s ! Suc d = Some x" and y: "s ! d = Some y" by auto
  from Suc.prems have lt: "Suc d < length s" "d < length s" by simp_all
  have thr0: "shift_throws_at T s d d = move_assign_throws T y x"
    using x y lt by (simp add: shift_throws_at_def rd_def)
  show ?case
  proof (cases "move_assign_throws T y x")
    case True
    then have "move_loop T s (Suc d) (Suc n) d = Thrown elem_exception s"
      using x y lt by (simp add: rd_def)
    moreover have "\<exists>j. d \<le> j \<and> j < d + Suc n \<and> shift_throws_at T s d j \<and>
                  (\<forall>i. d \<le> i \<and> i < j \<longrightarrow> \<not> shift_throws_at T s d i \<and> s ! i = s ! Suc i) \<and>
                  (\<forall>i<length s. i < d \<or> j < i \<longrightarrow> s ! i = s ! i) \<and> s ! j \<noteq> None"
      using True thr0 y by (intro exI [of _ d]) auto
    ultimately show ?thesis by simp
  next
    case False
    let ?s1 = "s[d := Some x, Suc d := Some (moved_from T x)]"
    have step: "move_loop T s (Suc d) (Suc n) d = move_loop T ?s1 (Suc (Suc d)) n (Suc d)"
      using False x y lt by (simp add: rd_def)
    have p1: "Suc (Suc d) + n \<le> length ?s1" using Suc.prems by simp
    have p2: "\<forall>j. Suc d \<le> j \<and> j \<le> Suc d + n \<longrightarrow> ?s1 ! j \<noteq> None"
      using Suc.prems by (auto simp: nth_list_update)
    note IH = Suc.IH[OF p1 p2]
    have thr: "shift_throws_at T ?s1 (Suc d) j = shift_throws_at T s d j" if "Suc d \<le> j" for j
      using shift_throws_at_step [OF lt(1) that x] .
    have at1: "?s1 ! Suc j = s ! Suc j" if "Suc d \<le> j" for j
      using that by (simp add: nth_list_update)
    show ?thesis
    proof (cases "move_loop T ?s1 (Suc (Suc d)) n (Suc d)")
      case (Returned r)
      with IH have len: "length r = length s"
        and out: "\<forall>j<length s. j < Suc d \<or> Suc d + n < j \<longrightarrow> r ! j = ?s1 ! j"
        and sh: "\<forall>j. Suc d \<le> j \<and> j < Suc d + n \<longrightarrow> r ! j = ?s1 ! Suc j"
        and lst: "r ! (Suc d + n) \<noteq> None"
        and nt: "\<forall>j. Suc d \<le> j \<and> j < Suc d + n \<longrightarrow> \<not> shift_throws_at T ?s1 (Suc d) j"
        by simp_all
      have a: "\<forall>j<length s. j < d \<or> d + Suc n < j \<longrightarrow> r ! j = s ! j"
        using out by (auto simp: nth_list_update)
      have b: "r ! j = s ! Suc j" if "d \<le> j \<and> j < d + Suc n" for j
      proof (cases "j = d")
        case True
        with out lt x show ?thesis by (simp add: nth_list_update)
      next
        case False
        with that sh have "r ! j = ?s1 ! Suc j" by simp
        with False that show ?thesis by (simp add: nth_list_update)
      qed
      have c: "\<not> shift_throws_at T s d j" if "d \<le> j \<and> j < d + Suc n" for j
      proof (cases "j = d")
        case True
        with thr0 \<open>\<not> move_assign_throws T y x\<close> show ?thesis by simp
      next
        case False
        with that have j: "Suc d \<le> j" "j < Suc d + n" by simp_all
        with nt have "\<not> shift_throws_at T ?s1 (Suc d) j" by simp
        with thr [OF j(1)] show ?thesis by simp
      qed
      from a b c len lst step Returned show ?thesis by simp
    next
      case (Thrown e r)
      with IH obtain j where e: "e = elem_exception" and len: "length r = length s"
        and j: "Suc d \<le> j" "j < Suc d + n" "shift_throws_at T ?s1 (Suc d) j"
        and before: "\<forall>i. Suc d \<le> i \<and> i < j \<longrightarrow>
                          \<not> shift_throws_at T ?s1 (Suc d) i \<and> r ! i = ?s1 ! Suc i"
        and out: "\<forall>i<length s. i < Suc d \<or> j < i \<longrightarrow> r ! i = ?s1 ! i"
        and rj: "r ! j \<noteq> None"
        by auto
      have 1: "shift_throws_at T s d j" using j thr by simp
      have 2: "\<not> shift_throws_at T s d i \<and> r ! i = s ! Suc i" if "d \<le> i \<and> i < j" for i
      proof (cases "i = d")
        case True
        with thr0 \<open>\<not> move_assign_throws T y x\<close> out lt x j show ?thesis
          by (simp add: nth_list_update)
      next
        case False
        with that have i: "Suc d \<le> i" "i < j" by simp_all
        with before thr [OF i(1)] at1 [OF i(1)] show ?thesis by simp
      qed
      have 3: "r ! i = s ! i" if "i < length s" "i < d \<or> j < i" for i
      proof -
        from that j have c: "i < Suc d \<or> j < i" and ne: "i \<noteq> d" "i \<noteq> Suc d" by auto
        from out [rule_format, OF that(1) c] have "r ! i = ?s1 ! i" .
        with ne show ?thesis by simp
      qed
      have "\<exists>j. d \<le> j \<and> j < d + Suc n \<and> shift_throws_at T s d j \<and>
                  (\<forall>i. d \<le> i \<and> i < j \<longrightarrow> \<not> shift_throws_at T s d i \<and> r ! i = s ! Suc i) \<and>
                  (\<forall>i<length s. i < d \<or> j < i \<longrightarrow> r ! i = s ! i) \<and> r ! j \<noteq> None"
        using j 1 2 3 rj by (intro exI [of _ j]) auto
      with e len step Thrown show ?thesis by simp
    next
      case Fault
      with IH show ?thesis by simp
    qed
  qed
qed

lemma copy_loop_Returned:
  "copy_loop T src first n dst d = Returned r \<Longrightarrow>
     length r = length dst \<and>
     (\<forall>i<n. first + i < length src \<and> d + i < length dst \<and> src ! (first + i) \<noteq> None \<and>
             r ! (d + i) = src ! (first + i)) \<and>
     (\<forall>j<length dst. j < d \<or> d + n \<le> j \<longrightarrow> r ! j = dst ! j)"
proof (induction n arbitrary: first dst d)
  case 0
  then show ?case by simp
next
  case (Suc n)
  from Suc.prems obtain x y where x: "rd src first = Some x" and y: "rd dst d = Some y"
    and rec: "copy_loop T src (Suc first) n (dst[d := Some x]) (Suc d) = Returned r"
    by (auto split: option.splits if_splits)
  note IH = Suc.IH[OF rec]
  from x have sx: "first < length src" "src ! first = Some x" by (simp_all add: rd_Some_iff)
  from y have d: "d < length dst" by (simp add: rd_Some_iff)
  have len: "length r = length dst" using IH by simp
  have out: "\<forall>j<length dst. j < d \<or> d + Suc n \<le> j \<longrightarrow> r ! j = dst ! j"
    using IH by (auto simp: nth_list_update)
  have rd0: "r ! d = Some x" using IH d by (auto simp: nth_list_update)
  have "first + i < length src \<and> d + i < length dst \<and> src ! (first + i) \<noteq> None \<and>
             r ! (d + i) = src ! (first + i)" if "i < Suc n" for i
  proof (cases i)
    case 0
    then show ?thesis using sx d rd0 by simp
  next
    case (Suc k)
    with that have "k < n" by simp
    with IH Suc show ?thesis by simp
  qed
  with len out show ?case by blast
qed

lemma copy_loop_Thrown:
  "copy_loop T src first n dst d = Thrown e r \<Longrightarrow>
     length r = length dst \<and>
     (\<forall>j<length dst. (dst ! j = None) = (r ! j = None))"
proof (induction n arbitrary: first dst d)
  case 0
  then show ?case by simp
next
  case (Suc n)
  from Suc.prems obtain x y where x: "rd src first = Some x" and y: "rd dst d = Some y"
    and alt: "r = dst \<or> copy_loop T src (Suc first) n (dst[d := Some x]) (Suc d) = Thrown e r"
    by (auto split: option.splits if_splits)
  from y have d: "d < length dst" "dst ! d = Some y" by (simp_all add: rd_Some_iff)
  from alt show ?case
  proof
    assume "r = dst" then show ?thesis by simp
  next
    assume "copy_loop T src (Suc first) n (dst[d := Some x]) (Suc d) = Thrown e r"
    from Suc.IH[OF this]
    have len: "length r = length dst"
      and eq: "\<forall>j<length dst. (dst[d := Some x] ! j = None) = (r ! j = None)" by simp_all
    have "(dst ! j = None) = (r ! j = None)" if "j < length dst" for j
    proof (cases "j = d")
      case True
      from eq [rule_format, of d] d have "r ! d \<noteq> None" by simp
      with True d show ?thesis by simp
    next
      case False
      with eq [rule_format, of j] that show ?thesis by simp
    qed
    with len show ?thesis by simp
  qed
qed

lemma copy_loop_not_Fault:
  assumes "first + n \<le> length src" "\<forall>i<n. src ! (first + i) \<noteq> None"
      and "d + n \<le> length dst" "\<forall>i<n. dst ! (d + i) \<noteq> None"
  shows "copy_loop T src first n dst d \<noteq> Fault"
  using assms
proof (induction n arbitrary: first dst d)
  case 0
  then show ?case by simp
next
  case (Suc n)
  from Suc.prems(2) [rule_format, of 0] Suc.prems(4) [rule_format, of 0]
  obtain x y where x: "src ! first = Some x" and y: "dst ! d = Some y" by auto
  from Suc.prems have lt: "first < length src" "d < length dst" by simp_all
  have "copy_loop T src (Suc first) n (dst[d := Some x]) (Suc d) \<noteq> Fault"
  proof (rule Suc.IH)
    show "Suc first + n \<le> length src" using Suc.prems by simp
    show "\<forall>i<n. src ! (Suc first + i) \<noteq> None"
    proof (intro allI impI)
      fix i assume "i < n"
      with Suc.prems(2) [rule_format, of "Suc i"] show "src ! (Suc first + i) \<noteq> None"
        by simp
    qed
    show "Suc d + n \<le> length (dst[d := Some x])" using Suc.prems by simp
    show "\<forall>i<n. dst[d := Some x] ! (Suc d + i) \<noteq> None"
    proof (intro allI impI)
      fix i assume "i < n"
      with Suc.prems(4) [rule_format, of "Suc i"]
      show "dst[d := Some x] ! (Suc d + i) \<noteq> None" by simp
    qed
  qed
  with x y lt show ?case by (simp add: rd_def)
qed

lemma uninitialized_copy_n_not_Fault:
  assumes "first + n \<le> length src" "\<forall>i<n. src ! (first + i) \<noteq> None"
      and "d + n \<le> length dst"
  shows "uninitialized_copy_n T src first n dst d \<noteq> Fault"
  using assms
proof (induction n arbitrary: first dst d)
  case 0
  then show ?case by simp
next
  case (Suc n)
  from Suc.prems(2) [rule_format, of 0]
  obtain x where x: "src ! first = Some x" by auto
  from Suc.prems have lt: "first < length src" "d < length dst" by simp_all
  have "uninitialized_copy_n T src (Suc first) n (dst[d := Some x]) (Suc d) \<noteq> Fault"
  proof (rule Suc.IH)
    show "Suc first + n \<le> length src" using Suc.prems by simp
    show "\<forall>i<n. src ! (Suc first + i) \<noteq> None"
    proof (intro allI impI)
      fix i assume "i < n"
      with Suc.prems(2) [rule_format, of "Suc i"] show "src ! (Suc first + i) \<noteq> None"
        by simp
    qed
    show "Suc d + n \<le> length (dst[d := Some x])" using Suc.prems by simp
  qed
  with x lt show ?case
    by (auto simp: rd_def copy_construct_def construct_at_def split: outcome.splits)
qed

lemma uninitialized_copy_n_Thrown:
  "uninitialized_copy_n T src first n dst d = Thrown e r \<Longrightarrow>
     (\<forall>i<n. d + i < length dst \<longrightarrow> dst ! (d + i) = None) \<Longrightarrow> r = dst"
proof (induction n arbitrary: first dst d r)
  case 0
  then show ?case by simp
next
  case (Suc n)
  from Suc.prems(1) obtain x where x: "rd src first = Some x"
    and alt: "r = dst \<or> (d < length dst \<and> (\<exists>r1.
        uninitialized_copy_n T src (Suc first) n (dst[d := Some x]) (Suc d) = Thrown e r1 \<and>
        r = r1[d := None]))"
    by (auto simp: copy_construct_def construct_at_def split: option.splits if_splits outcome.splits)
  from alt show ?case
  proof
    assume "r = dst" then show ?thesis .
  next
    assume "d < length dst \<and> (\<exists>r1.
        uninitialized_copy_n T src (Suc first) n (dst[d := Some x]) (Suc d) = Thrown e r1 \<and>
        r = r1[d := None])"
    then obtain r1 where d: "d < length dst"
      and rec: "uninitialized_copy_n T src (Suc first) n (dst[d := Some x]) (Suc d) = Thrown e r1"
      and r: "r = r1[d := None]" by blast
    have "r1 = dst[d := Some x]"
    proof (rule Suc.IH[OF rec], intro allI impI)
      fix i assume "i < n" "Suc d + i < length (dst[d := Some x])"
      with Suc.prems(2) [rule_format, of "Suc i"] show "dst[d := Some x] ! (Suc d + i) = None"
        by simp
    qed
    with r Suc.prems(2) [rule_format, of 0] d show ?thesis
      by (simp add: list_update_same_conv)
  qed
qed

lemma Vector_inv_live: "Vector_inv v \<Longrightarrow> i < size_m v \<Longrightarrow> GetAddress v ! i \<noteq> None"
  by (simp add: Vector_inv_iff)

lemma Vector_inv_dead:
  "Vector_inv v \<Longrightarrow> size_m v \<le> i \<Longrightarrow> i < Capacity v \<Longrightarrow> GetAddress v ! i = None"
  by (simp add: Vector_inv_iff)

lemma Vector_inv_length: "Vector_inv v \<Longrightarrow> length (GetAddress v) = Capacity v"
  by (simp add: Vector_inv_iff)

lemma Vector_inv_le: "Vector_inv v \<Longrightarrow> size_m v \<le> Capacity v"
  by (simp add: Vector_inv_iff)

lemma Vector_invI:
  assumes "length (GetAddress v) = Capacity v" "size_m v \<le> Capacity v"
      and "\<And>i. i < size_m v \<Longrightarrow> GetAddress v ! i \<noteq> None"
      and "\<And>i. size_m v \<le> i \<Longrightarrow> i < Capacity v \<Longrightarrow> GetAddress v ! i = None"
  shows "Vector_inv v"
  unfolding Vector_inv_iff
proof (intro conjI allI impI)
  fix i assume "i < Capacity v"
  then show "(GetAddress v ! i = None) = (size_m v \<le> i)"
    using assms(3) [of i] assms(4) [of i] by (cases "i < size_m v") auto
qed (use assms in simp_all)

lemma iterate_eqI:
  assumes "size_m a = size_m b"
      and "\<And>i. i < size_m b \<Longrightarrow> rd (GetAddress a) i = rd (GetAddress b) i"
  shows "iterate a = iterate b"
  by (rule nth_equalityI) (use assms in \<open>simp_all add: nth_iterate\<close>)

lemma Vector_dtor_inv:
  assumes "Vector_inv v"
  shows "\<exists>h'. Vector_dtor v h = Some h' \<and> allocs h' = allocs h"
proof -
  have "\<exists>r. destroy_n (GetAddress v) 0 (size_m v) = Some r"
  proof (rule destroy_n_live)
    show "0 + size_m v \<le> length (GetAddress v)"
      using Vector_inv_le [OF assms] Vector_inv_length [OF assms] by simp
    show "\<forall>j. 0 \<le> j \<and> j < 0 + size_m v \<longrightarrow> GetAddress v ! j \<noteq> None"
      using Vector_inv_live [OF assms] by simp
  qed
  then show ?thesis
    by (auto simp: Vector_dtor_def RawMemory_dtor_def Deallocate_def)
qed

lemma Vector_copy_cases:
  assumes "Vector_inv other"
  shows "case Vector_copy T other h of
           Returned (c, h') \<Rightarrow>
             Vector_inv c \<and> size_m c = size_m other \<and> Capacity c = size_m other \<and>
             iterate c = iterate other \<and>
             allocs h' = (if size_m other = 0 then allocs h else Suc (allocs h))
         | Thrown e h' \<Rightarrow> True
         | Fault \<Rightarrow> False"
proof (cases "RawMemory_ctor (size_m other) h :: ('a RawMemory \<times> heap) option")
  case None
  then show ?thesis by (simp add: Vector_copy_def)
next
  case (Some p)
  obtain d h1 where p: "p = (d, h1)" by (cases p)
  let ?n = "size_m other" and ?s = "GetAddress other"
  from RawMemory_ctor_Some [OF Some [unfolded p]]
  have d: "capacity_m d = ?n" "buffer_m d = replicate ?n None"
    and al: "allocs h1 = (if ?n = 0 then allocs h else Suc (allocs h))" by simp_all
  have n_le: "?n \<le> length ?s"
    using Vector_inv_le [OF assms] Vector_inv_length [OF assms] by simp
  have nf: "uninitialized_copy_n T ?s 0 ?n (buffer_m d) 0 \<noteq> Fault"
  proof (rule uninitialized_copy_n_not_Fault)
    show "0 + ?n \<le> length ?s" using n_le by simp
    show "\<forall>i<?n. ?s ! (0 + i) \<noteq> None" using Vector_inv_live [OF assms] by simp
    show "0 + ?n \<le> length (buffer_m d)" using d by simp
  qed
  show ?thesis
  proof (cases "uninitialized_copy_n T ?s 0 ?n (buffer_m d) 0")
    case (Returned b)
    let ?c = "\<lparr>size_m = ?n, data_m = d\<lparr>buffer_m := b\<rparr>\<rparr>"
    from uninitialized_copy_n_Returned [OF Returned] d
    have len: "length b = ?n" and eq: "\<forall>i<?n. b ! i = ?s ! i" by simp_all
    have vc: "Vector_copy T other h = Returned (?c, h1)"
      using Some p Returned by (simp add: Vector_copy_def)
    have inv: "Vector_inv ?c"
    proof (rule Vector_invI)
      show "length (GetAddress ?c) = Capacity ?c" using len d by (simp add: GetAddress_def Capacity_def)
      show "size_m ?c \<le> Capacity ?c" using d by (simp add: Capacity_def)
      show "GetAddress ?c ! i \<noteq> None" if "i < size_m ?c" for i
        using that eq Vector_inv_live [OF assms, of i] by (simp add: GetAddress_def)
      show "GetAddress ?c ! i = None" if "size_m ?c \<le> i" "i < Capacity ?c" for i
        using that d by (simp add: Capacity_def)
    qed
    have it: "iterate ?c = iterate other"
    proof (rule iterate_eqI)
      show "size_m ?c = size_m other" by simp
      show "rd (GetAddress ?c) i = rd ?s i" if "i < size_m other" for i
        using that eq len n_le by (simp add: rd_def GetAddress_def)
    qed
    from vc inv it al d show ?thesis by (simp add: Capacity_def)
  next
    case (Thrown e b)
    with Some p show ?thesis by (simp add: Vector_copy_def)
  next
    case Fault
    with nf show ?thesis by simp
  qed
qed

lemma assign_copy_example:
  "assign_copy int_type 0 1 (store2 (vec_of [1, 1, 1] 3) (vec_of [7, 7, 7, 7, 7] 5), heap0) =
     Returned ((store2 (vec_of [1, 1, 1] 3) (vec_of [7, 7, 7, 7, 7] 5))
                 (0 := vec_of [7, 7, 7, 7, 7] 5), \<lparr>allocs = 1, avail = 62\<rparr>)"
proof -
  have vc: "Vector_copy int_type (vec_of [7, 7, 7, 7, 7] 5) heap0 =
              Returned (vec_of [7, 7, 7, 7, 7] 5, \<lparr>allocs = 1, avail = 59\<rparr>)"
    by code_simp
  have dt: "Vector_dtor (vec_of [1, 1, 1 :: int] 3) \<lparr>allocs = Suc 0, avail = 59\<rparr> =
              Some \<lparr>allocs = 1, avail = 62\<rparr>"
    by code_simp
  show ?thesis
    by (simp add: assign_copy_def store2_def Swap_eq vc dt vec_of_simps)
qed

lemma RawMemory_ctor_None:
  "(RawMemory_ctor n h :: ('a RawMemory \<times> heap) option) = None \<Longrightarrow> avail h < n"
  by (auto simp: RawMemory_ctor_def Allocate_def split: if_splits)

lemma copy_loop_Thrown_cause:
  "copy_loop T src first n dst d = Thrown e r \<Longrightarrow>
     e = elem_exception \<and>
     (\<exists>i<n. \<exists>x y. src ! (first + i) = Some x \<and> dst ! (d + i) = Some y \<and>
                    copy_assign_throws T y x)"
proof (induction n arbitrary: first dst d)
  case 0
  then show ?case by simp
next
  case (Suc n)
  from Suc.prems obtain x y where x: "rd src first = Some x" and y: "rd dst d = Some y"
    and alt: "(copy_assign_throws T y x \<and> e = elem_exception) \<or>
              copy_loop T src (Suc first) n (dst[d := Some x]) (Suc d) = Thrown e r"
    by (auto split: option.splits if_splits)
  from x y have sx: "src ! first = Some x" and dy: "dst ! d = Some y"
    by (simp_all add: rd_Some_iff)
  from alt show ?case
  proof
    assume "copy_assign_throws T y x \<and> e = elem_exception"
    with sx dy show ?thesis by (intro conjI exI [of _ 0]) auto
  next
    assume "copy_loop T src (Suc first) n (dst[d := Some x]) (Suc d) = Thrown e r"
    from Suc.IH [OF this] obtain i x' y' where e: "e = elem_exception" and i: "i < n"
      and s: "src ! (Suc first + i) = Some x'"
      and t: "dst[d := Some x] ! (Suc d + i) = Some y'"
      and thr: "copy_assign_throws T y' x'" by blast
    from t have "dst ! (d + Suc i) = Some y'" by simp
    with e i s thr show ?thesis by (intro conjI exI [of _ "Suc i"]) auto
  qed
qed

lemma uninitialized_copy_n_Thrown_cause:
  "uninitialized_copy_n T src first n dst d = Thrown e r \<Longrightarrow>
     e = elem_exception \<and> (\<exists>i<n. \<exists>x. src ! (first + i) = Some x \<and> copy_ctor_throws T x)"
proof (induction n arbitrary: first dst d r)
  case 0
  then show ?case by simp
next
  case (Suc n)
  from Suc.prems obtain x where x: "rd src first = Some x"
    and alt: "(copy_ctor_throws T x \<and> e = elem_exception) \<or>
              (\<exists>r1. uninitialized_copy_n T src (Suc first) n (dst[d := Some x]) (Suc d)
                       = Thrown e r1)"
    by (auto simp: copy_construct_def construct_at_def
             split: option.splits if_splits outcome.splits)
  from x have sx: "src ! first = Some x" by (simp add: rd_Some_iff)
  from alt show ?case
  proof
    assume "copy_ctor_throws T x \<and> e = elem_exception"
    with sx show ?thesis by (intro conjI exI [of _ 0]) auto
  next
    assume "\<exists>r1. uninitialized_copy_n T src (Suc first) n (dst[d := Some x]) (Suc d)
                    = Thrown e r1"
    then obtain r1 where
      "uninitialized_copy_n T src (Suc first) n (dst[d := Some x]) (Suc d) = Thrown e r1" ..
    from Suc.IH [OF this] obtain i x' where e: "e = elem_exception" and i: "i < n"
      and s: "src ! (Suc first + i) = Some x'" and thr: "copy_ctor_throws T x'" by blast
    then show ?thesis by (intro conjI exI [of _ "Suc i"]) auto
  qed
qed

lemma Vector_copy_Thrown_cause:
  assumes "Vector_copy T other h = Thrown e h'"
  shows "(e = bad_alloc \<and> avail h < size_m other) \<or>
         (e = elem_exception \<and>
          (\<exists>i<size_m other. \<exists>x. GetAddress other ! i = Some x \<and> copy_ctor_throws T x))"
proof (cases "RawMemory_ctor (size_m other) h :: ('a RawMemory \<times> heap) option")
  case None
  with assms RawMemory_ctor_None [OF None] show ?thesis by (simp add: Vector_copy_def)
next
  case (Some p)
  obtain d h1 where p: "p = (d, h1)" by (cases p)
  from assms Some p obtain b where
    "uninitialized_copy_n T (GetAddress other) 0 (size_m other) (buffer_m d) 0 = Thrown e b"
    by (auto simp: Vector_copy_def split: outcome.splits)
  from uninitialized_copy_n_Thrown_cause [OF this] show ?thesis by simp
qed

lemma RawMemory_ctor_avail:
  "RawMemory_ctor n h = Some (m, h1) \<Longrightarrow> n \<le> avail h \<or> n = 0"
  "RawMemory_ctor n h = Some (m, h1) \<Longrightarrow> avail h1 = avail h - n"
  by (auto simp: RawMemory_ctor_def Allocate_def split: if_splits)

lemma uninitialized_move_n_not_Fault:
  assumes "first + n \<le> length src" "\<forall>i<n. src ! (first + i) \<noteq> None"
      and "d + n \<le> length dst"
  shows "uninitialized_move_n T src first n dst d \<noteq> Fault"
  using assms
proof (induction n arbitrary: src first dst d)
  case 0
  then show ?case by simp
next
  case (Suc n)
  from Suc.prems(2) [rule_format, of 0]
  obtain x where x: "src ! first = Some x" by auto
  from Suc.prems have lt: "first < length src" "d < length dst" by simp_all
  have "uninitialized_move_n T (src[first := Some (moved_from T x)]) (Suc first) n
          (dst[d := Some x]) (Suc d) \<noteq> Fault"
  proof (rule Suc.IH)
    show "Suc first + n \<le> length (src[first := Some (moved_from T x)])"
      using Suc.prems by simp
    show "\<forall>i<n. src[first := Some (moved_from T x)] ! (Suc first + i) \<noteq> None"
    proof (intro allI impI)
      fix i assume "i < n"
      with Suc.prems(2) [rule_format, of "Suc i"]
      show "src[first := Some (moved_from T x)] ! (Suc first + i) \<noteq> None" by simp
    qed
    show "Suc d + n \<le> length (dst[d := Some x])" using Suc.prems by simp
  qed
  with x lt show ?case
    by (auto simp: rd_def move_construct_def construct_at_def split: outcome.splits)
qed

lemma uninitialized_move_n_Thrown_cause:
  "uninitialized_move_n T src first n dst d = Thrown e p \<Longrightarrow>
     e = elem_exception \<and>
     (\<exists>i<n. \<exists>x. src ! (first + i) = Some x \<and> move_construct T x = None)"
proof (induction n arbitrary: src first dst d p)
  case 0
  then show ?case by simp
next
  case (Suc n)
  from Suc.prems obtain x where x: "rd src first = Some x"
    and alt: "(move_construct T x = None \<and> e = elem_exception) \<or>
              (\<exists>p1. uninitialized_move_n T (src[first := Some (moved_from T x)]) (Suc first) n
                       (dst[d := Some x]) (Suc d) = Thrown e p1)"
    by (auto simp: move_construct_def construct_at_def
             split: option.splits if_splits outcome.splits prod.splits)
  from x have sx: "src ! first = Some x" by (simp add: rd_Some_iff)
  from alt show ?case
  proof
    assume "move_construct T x = None \<and> e = elem_exception"
    with sx show ?thesis by (intro conjI exI [of _ 0]) auto
  next
    assume "\<exists>p1. uninitialized_move_n T (src[first := Some (moved_from T x)]) (Suc first) n
                       (dst[d := Some x]) (Suc d) = Thrown e p1"
    then obtain p1 where
      "uninitialized_move_n T (src[first := Some (moved_from T x)]) (Suc first) n
         (dst[d := Some x]) (Suc d) = Thrown e p1" ..
    from Suc.IH [OF this] obtain i x' where e: "e = elem_exception" and i: "i < n"
      and s: "src[first := Some (moved_from T x)] ! (Suc first + i) = Some x'"
      and thr: "move_construct T x' = None" by blast
    from s have "src ! (first + Suc i) = Some x'" by simp
    with e i thr show ?thesis by (intro conjI exI [of _ "Suc i"]) auto
  qed
qed

lemma migrate_cases:
  assumes len: "size_m v \<le> length (GetAddress v)"
      and live: "\<forall>i<size_m v. GetAddress v ! i \<noteq> None"
      and room: "size_m v \<le> length (buffer_m nd)"
  shows "case migrate T v nd h of
           Returned (v', h') \<Rightarrow> avail h' = avail h + length (GetAddress v)
         | Thrown e s \<Rightarrow>
             e = elem_exception \<and>
             (\<exists>i<size_m v. \<exists>x. GetAddress v ! i = Some x \<and> \<not> relocates T x)
         | Fault \<Rightarrow> False"
proof (cases "is_nothrow_move_constructible T \<or> \<not> is_copy_constructible T")
  case True
  let ?m = "uninitialized_move_n T (GetAddress v) 0 (size_m v) (buffer_m nd) 0"
  have nf: "?m \<noteq> Fault"
    by (rule uninitialized_move_n_not_Fault) (use len live room in simp_all)
  show ?thesis
  proof (cases ?m)
    case (Returned p)
    obtain src dst where p: "p = (src, dst)" by (cases p)
    from uninitialized_move_n_Returned [OF Returned [unfolded p]]
    have slen: "length src = length (GetAddress v)"
      and slive: "\<forall>i<size_m v. src ! i \<noteq> None" by simp_all
    have "\<exists>b. destroy_n src 0 (size_m v) = Some b"
      by (rule destroy_n_live) (use slen slive len in simp_all)
    then obtain b where b: "destroy_n src 0 (size_m v) = Some b" by blast
    from destroy_n_Some [OF b] slen have "length b = length (GetAddress v)" by simp
    with True Returned p b show ?thesis
      by (simp add: migrate_def release_old_def RawMemory_Swap_def RawMemory_dtor_def
                    Deallocate_def)
  next
    case (Thrown e p)
    from uninitialized_move_n_Thrown_cause [OF Thrown] True
    have "e = elem_exception \<and>
          (\<exists>i<size_m v. \<exists>x. GetAddress v ! i = Some x \<and> \<not> relocates T x)"
      by (auto simp: relocates_def)
    with True Thrown show ?thesis by (simp add: migrate_def split: prod.splits)
  next
    case Fault
    with nf show ?thesis by simp
  qed
next
  case False
  let ?c = "uninitialized_copy_n T (GetAddress v) 0 (size_m v) (buffer_m nd) 0"
  have nf: "?c \<noteq> Fault"
    by (rule uninitialized_copy_n_not_Fault) (use len live room in simp_all)
  show ?thesis
  proof (cases ?c)
    case (Returned dst)
    have "\<exists>b. destroy_n (GetAddress v) 0 (size_m v) = Some b"
      by (rule destroy_n_live) (use len live in simp_all)
    then obtain b where b: "destroy_n (GetAddress v) 0 (size_m v) = Some b" by blast
    from destroy_n_Some [OF b] have "length b = length (GetAddress v)" by simp
    with False Returned b show ?thesis
      by (simp add: migrate_def release_old_def RawMemory_Swap_def RawMemory_dtor_def
                    Deallocate_def)
  next
    case (Thrown e r)
    from uninitialized_copy_n_Thrown_cause [OF Thrown] False
    have "e = elem_exception \<and>
          (\<exists>i<size_m v. \<exists>x. GetAddress v ! i = Some x \<and> \<not> relocates T x)"
      by (auto simp: relocates_def copy_construct_def)
    with False Thrown show ?thesis by (simp add: migrate_def)
  next
    case Fault
    with nf show ?thesis by simp
  qed
qed

lemma EmplaceBack_cases:
  assumes inv: "Vector_inv v"
  shows "case EmplaceBack T arg (v, h) of
           Returned (r, v', h') \<Rightarrow> avail h' + Capacity v' = avail h + Capacity v
         | Thrown e s \<Rightarrow>
             (e = bad_alloc \<and> size_m v = Capacity v \<and>
              avail h < (if size_m v = 0 then 1 else size_m v * 2)) \<or>
             (e = elem_exception \<and>
              (arg = None \<or> (\<exists>i<size_m v. \<exists>x. GetAddress v ! i = Some x \<and> \<not> relocates T x)))
         | Fault \<Rightarrow> False"
proof -
  from inv have len: "length (GetAddress v) = Capacity v" and le: "size_m v \<le> Capacity v"
    by (simp_all add: Vector_inv_iff)
  have live: "\<forall>i<size_m v. GetAddress v ! i \<noteq> None"
    using Vector_inv_live [OF inv] by simp
  show ?thesis
  proof (cases "size_m v < Capacity v")
    case True
    show ?thesis
    proof (cases arg)
      case None
      with True show ?thesis
        by (simp add: EmplaceBack_def Let_def RawMemory_plus_def Capacity_def)
    next
      case (Some x)
      let ?v' = "(with_slots v ((GetAddress v)[size_m v := Some x]))\<lparr>size_m := size_m v + 1\<rparr>"
      have "RawMemory_index (data_m ?v') (size_m ?v' - 1) = Some x"
        using True len by (simp add: RawMemory_index_def rd_def with_slots_def Capacity_def)
      then have "EmplaceBack T arg (v, h) = Returned (x, ?v', h)"
        using True Some len
        by (simp add: EmplaceBack_def Let_def RawMemory_plus_def construct_at_def Capacity_def)
      then show ?thesis by simp
    qed
  next
    case False
    with le have full: "size_m v = Capacity v" by simp
    let ?c = "if size_m v = 0 then 1 else size_m v * 2"
    have c_gt: "size_m v < ?c" by simp
    show ?thesis
    proof (cases "RawMemory_ctor ?c h :: ('a RawMemory \<times> heap) option")
      case None
      from RawMemory_ctor_None [OF None] have "avail h < ?c" .
      moreover from None False have "EmplaceBack T arg (v, h) = Thrown bad_alloc (v, h)"
        by (simp add: EmplaceBack_def Let_def)
      ultimately show ?thesis using full by simp
    next
      case (Some p)
      obtain nd h1 where p: "p = (nd, h1)" by (cases p)
      from RawMemory_ctor_Some [OF Some [unfolded p]]
      have nd: "capacity_m nd = ?c" "buffer_m nd = replicate ?c None" by simp_all
      from RawMemory_ctor_avail [OF Some [unfolded p]]
      have av: "?c \<le> avail h" "avail h1 = avail h - ?c" by auto
      show ?thesis
      proof (cases arg)
        case None
        with Some p False nd c_gt have "\<exists>s. EmplaceBack T arg (v, h) = Thrown elem_exception s"
          by (simp add: EmplaceBack_def Let_def RawMemory_plus_def)
        with None show ?thesis by auto
      next
        case (Some x)
        have ndlen: "size_m v < length (buffer_m nd)" "size_m v \<le> capacity_m nd"
          using nd c_gt by simp_all
        let ?nd = "nd\<lparr>buffer_m := (buffer_m nd)[size_m v := Some x]\<rparr>"
        let ?finish = "\<lambda>(v1, h1).
              let v2 = v1\<lparr>size_m := size_m v1 + 1\<rparr>
              in (case RawMemory_index (data_m v2) (size_m v2 - 1) of None \<Rightarrow> Fault
                  | Some r \<Rightarrow> Returned (r, v2, h1))"
        have eq: "EmplaceBack T arg (v, h) =
                    (case migrate T v ?nd h1 of Fault \<Rightarrow> Fault
                     | Thrown e s1 \<Rightarrow> Thrown e s1
                     | Returned s1 \<Rightarrow> ?finish s1)"
          using \<open>RawMemory_ctor ?c h = Some p\<close> p False Some ndlen
          by (simp add: EmplaceBack_def Let_def RawMemory_plus_def construct_at_def
                   cong: outcome.case_cong)
        have M: "case migrate T v ?nd h1 of
                   Returned (v', h') \<Rightarrow> avail h' = avail h1 + length (GetAddress v)
                 | Thrown e s \<Rightarrow>
                     e = elem_exception \<and>
                     (\<exists>i<size_m v. \<exists>x. GetAddress v ! i = Some x \<and> \<not> relocates T x)
                 | Fault \<Rightarrow> False"
          by (rule migrate_cases) (use len le live nd c_gt in simp_all)
        show ?thesis
        proof (cases "migrate T v ?nd h1")
          case (Returned s1)
          obtain v1 h2 where s1: "s1 = (v1, h2)" by (cases s1)
          from M Returned s1 have h2: "avail h2 = avail h1 + length (GetAddress v)" by simp
          note C = migrate_Returned_contents [OF Returned [unfolded s1]]
          from C nd c_gt have v1: "size_m v1 = size_m v" "Capacity v1 = ?c"
            "length (GetAddress v1) = ?c" "GetAddress v1 ! size_m v = Some x"
            by simp_all
          then have "RawMemory_index (data_m v1) (size_m v) = Some x"
            using c_gt by (simp add: RawMemory_index_def rd_def Capacity_def GetAddress_def)
          with eq Returned s1 v1
          have "EmplaceBack T arg (v, h) = Returned (x, v1\<lparr>size_m := size_m v + 1\<rparr>, h2)"
            by (simp add: Let_def)
          moreover have "avail h2 + ?c = avail h + Capacity v"
            using h2 av len by simp
          ultimately show ?thesis using v1 by simp
        next
          case (Thrown e s1)
          with M eq show ?thesis by simp
        next
          case Fault
          with M show ?thesis by simp
        qed
      qed
    qed
  qed
qed

lemma run_call_append:
  "is_append c \<Longrightarrow> run_call T c s = drop_result (EmplaceBack T (append_arg T c) s)"
  by (cases c) (simp_all add: PushBack_copy_def PushBack_move_def drop_result_def)

lemma run_calls_appends_cases:
  assumes "Vector_inv v" "list_all is_append cs"
  shows "case run_calls T cs (v, h) of
           Returned s \<Rightarrow> True
         | Thrown e s \<Rightarrow>
             (e = bad_alloc \<and> avail h + Capacity v < 3 * (size_m v + length cs)) \<or>
             (e = elem_exception \<and>
              \<not> ((\<forall>i<size_m v. \<forall>x. GetAddress v ! i = Some x \<longrightarrow> relocates T x) \<and>
                 list_all (append_quiet T) cs))
         | Fault \<Rightarrow> False"
  using assms
proof (induction cs arbitrary: v h)
  case Nil
  then show ?case by simp
next
  case (Cons c cs)
  from Cons.prems have c: "is_append c" and cs: "list_all is_append cs" by simp_all
  note inv = Cons.prems(1)
  let ?arg = "append_arg T c"
  note E = EmplaceBack_cases [OF inv, where T = T and arg = ?arg and h = h]
  have rc: "run_call T c (v, h) = drop_result (EmplaceBack T ?arg (v, h))"
    by (rule run_call_append [OF c])
  show ?case
  proof (cases "EmplaceBack T ?arg (v, h)")
    case (Returned p)
    obtain r v1 h1 where p: "p = (r, v1, h1)" by (cases p)
    from E Returned p have cons: "avail h1 + Capacity v1 = avail h + Capacity v" by simp
    from EmplaceBack_Returned_contents [OF inv Returned [unfolded p]]
    have arg: "?arg = Some r" and inv1: "Vector_inv v1" and sz: "size_m v1 = Suc (size_m v)"
      and it: "iterate v1 = iterate v @ [Some r]" by simp_all
    have run: "run_calls T (c # cs) (v, h) = run_calls T cs (v1, h1)"
      using rc Returned p by (simp add: drop_result_def)
    note IH = Cons.IH [OF inv1 cs, where h = h1]
    have keep: "\<forall>i<size_m v1. \<forall>x. GetAddress v1 ! i = Some x \<longrightarrow> relocates T x"
      if old: "\<forall>i<size_m v. \<forall>x. GetAddress v ! i = Some x \<longrightarrow> relocates T x"
        and q: "append_quiet T c"
    proof (intro allI impI)
      fix i x assume i: "i < size_m v1" and x: "GetAddress v1 ! i = Some x"
      from i Vector_inv_le [OF inv1] Vector_inv_length [OF inv1]
      have "iterate v1 ! i = GetAddress v1 ! i" by (simp add: nth_iterate rd_def)
      with x it have at: "(iterate v @ [Some r]) ! i = Some x" by simp
      show "relocates T x"
      proof (cases "i < size_m v")
        case True
        with Vector_inv_le [OF inv] Vector_inv_length [OF inv]
        have "iterate v ! i = GetAddress v ! i" by (simp add: nth_iterate rd_def)
        with at True old show ?thesis by (simp add: nth_append)
      next
        case False
        with i sz have "i = size_m v" by simp
        with at have "x = r" by (simp add: nth_append)
        with q arg show ?thesis by (simp add: append_quiet_def)
      qed
    qed
    show ?thesis
    proof (cases "run_calls T cs (v1, h1)")
      case (Returned s)
      with run show ?thesis by simp
    next
      case (Thrown e s)
      with IH have "(e = bad_alloc \<and> avail h1 + Capacity v1 < 3 * (size_m v1 + length cs)) \<or>
             (e = elem_exception \<and>
              \<not> ((\<forall>i<size_m v1. \<forall>x. GetAddress v1 ! i = Some x \<longrightarrow> relocates T x) \<and>
                 list_all (append_quiet T) cs))" by simp
      then have "(e = bad_alloc \<and> avail h + Capacity v < 3 * (size_m v + length (c # cs))) \<or>
             (e = elem_exception \<and>
              \<not> ((\<forall>i<size_m v. \<forall>x. GetAddress v ! i = Some x \<longrightarrow> relocates T x) \<and>
                 list_all (append_quiet T) (c # cs)))"
      proof
        assume "e = bad_alloc \<and> avail h1 + Capacity v1 < 3 * (size_m v1 + length cs)"
        with cons sz show ?thesis by simp
      next
        assume a: "e = elem_exception \<and>
              \<not> ((\<forall>i<size_m v1. \<forall>x. GetAddress v1 ! i = Some x \<longrightarrow> relocates T x) \<and>
                 list_all (append_quiet T) cs)"
        have "\<not> ((\<forall>i<size_m v. \<forall>x. GetAddress v ! i = Some x \<longrightarrow> relocates T x) \<and>
                 list_all (append_quiet T) (c # cs))"
        proof
          assume b: "(\<forall>i<size_m v. \<forall>x. GetAddress v ! i = Some x \<longrightarrow> relocates T x) \<and>
                 list_all (append_quiet T) (c # cs)"
          then have "\<forall>i<size_m v1. \<forall>x. GetAddress v1 ! i = Some x \<longrightarrow> relocates T x"
            by (intro keep) simp_all
          with a b show False by simp
        qed
        with a show ?thesis by simp
      qed
      with run Thrown show ?thesis by simp
    next
      case Fault
      with IH show ?thesis by simp
    qed
  next
    case (Thrown e s)
    with rc have run: "run_calls T (c # cs) (v, h) = Thrown e s"
      by (simp add: drop_result_def)
    from E Thrown have cause:
       "(e = bad_alloc \<and> size_m v = Capacity v \<and>
              avail h < (if size_m v = 0 then 1 else size_m v * 2)) \<or>
        (e = elem_exception \<and>
              (?arg = None \<or> (\<exists>i<size_m v. \<exists>x. GetAddress v ! i = Some x \<and> \<not> relocates T x)))"
      by simp
    then have "(e = bad_alloc \<and> avail h + Capacity v < 3 * (size_m v + length (c # cs))) \<or>
             (e = elem_exception \<and>
              \<not> ((\<forall>i<size_m v. \<forall>x. GetAddress v ! i = Some x \<longrightarrow> relocates T x) \<and>
                 list_all (append_quiet T) (c # cs)))"
    proof
      assume "e = bad_alloc \<and> size_m v = Capacity v \<and>
              avail h < (if size_m v = 0 then 1 else size_m v * 2)"
      then show ?thesis by (auto split: if_splits)
    next
      assume "e = elem_exception \<and>
              (?arg = None \<or> (\<exists>i<size_m v. \<exists>x. GetAddress v ! i = Some x \<and> \<not> relocates T x))"
      then show ?thesis by (auto simp: append_quiet_def)
    qed
    with run show ?thesis by simp
  next
    case Fault
    with E show ?thesis by simp
  qed
qed

section \<open>Failure during growth or insertion\<close>

text \<open>
  Claim C1, as stated (a failing \<open>Reserve\<close>, \<open>PushBack\<close>, \<open>EmplaceBack\<close>, \<open>Insert\<close> or
  \<open>Emplace\<close> always leaves size, capacity and element values as they were), does not
  hold. What holds by the design of the code: whenever one of these calls leaves by an
  exception, be it from the element type or from the allocator, the size and the
  capacity are as before the call; and when \<open>T\<close> is nothrow move constructible or copy
  constructible, and the call is not an insertion that shifts elements inside a buffer
  that is neither empty nor full, the whole buffer (size, capacity and every slot) is
  exactly as before the call.
\<close>

theorem failed_attempt_leaves_buffer:
  assumes "is_reserve c \<or> is_append c \<or> is_insertion c"
      and "run_call T c (v, h) = Thrown e (v', h')"
  shows "size_m v' = size_m v \<and> Capacity v' = Capacity v \<and>
         ((is_nothrow_move_constructible T \<or> is_copy_constructible T) \<and>
          \<not> shifts_in_place c v \<longrightarrow> v' = v)"
  using run_call_Thrown_shape [OF assms(2) assms(1)] .

theorem failed_attempt_leaves_buffer_witness:
  "(is_reserve (Call_PushBack_copy (5::int)) \<or> is_append (Call_PushBack_copy (5::int)) \<or>
      is_insertion (Call_PushBack_copy (5::int))) \<and>
   run_call copy_throw_type (Call_PushBack_copy 5) (vec_of [1, 2] 2, heap0) =
     Thrown elem_exception (vec_of [1, 2] 2, \<lparr>allocs = 1, avail = 64\<rparr>) \<and>
   (is_nothrow_move_constructible copy_throw_type \<or> is_copy_constructible copy_throw_type) \<and>
   \<not> shifts_in_place (Call_PushBack_copy 5) (vec_of [1, 2 :: int] 2) \<and>
   size_m (vec_of [1, 2 :: int] 2) = 2 \<and> Capacity (vec_of [1, 2 :: int] 2) = 2"
proof -
  have a: "is_reserve (Call_PushBack_copy (5::int)) \<or> is_append (Call_PushBack_copy (5::int)) \<or>
      is_insertion (Call_PushBack_copy (5::int))" by simp
  have b: "run_call copy_throw_type (Call_PushBack_copy 5) (vec_of [1, 2] 2, heap0) =
     Thrown elem_exception (vec_of [1, 2] 2, \<lparr>allocs = 1, avail = 64\<rparr>)"
    by code_simp
  have c: "is_nothrow_move_constructible copy_throw_type \<or> is_copy_constructible copy_throw_type"
    by (simp add: copy_throw_type_def)
  have d: "\<not> shifts_in_place (Call_PushBack_copy 5) (vec_of [1, 2 :: int] 2)"
    by (simp add: shifts_in_place_def)
  have e: "size_m (vec_of [1, 2 :: int] 2) = 2 \<and> Capacity (vec_of [1, 2 :: int] 2) = 2"
    by (simp add: vec_of_def Capacity_def)
  from failed_attempt_leaves_buffer [OF a b] a b c d e show ?thesis by blast
qed

text \<open>
  Two calls after which the element values differ: \<open>Reserve\<close> on a buffer of a
  move-only type whose move constructor throws at the second element (the first element
  is left moved-from), and \<open>Emplace\<close> at the front of a buffer with spare capacity whose
  element type throws in the move assignment of the last shifting step (the elements
  behind are already shifted).
\<close>

theorem strong_guarantee_counterexample:
  "run_call move_only_type (Call_Reserve 4) (vec_of [1, 2] 2, heap0) =
     Thrown elem_exception (vec_of [0, 2] 2, \<lparr>allocs = 1, avail = 64\<rparr>) \<and>
   iterate (vec_of [0, 2 :: int] 2) \<noteq> iterate (vec_of [1, 2] 2) \<and>
   run_call shift_throw_type (Call_Emplace 0 (Some 9)) (vec_of [1, 2, 3] 4, heap0) =
     Thrown elem_exception (vec_of [1, 2, 2] 4, heap0) \<and>
   iterate (vec_of [1, 2, 2 :: int] 4) \<noteq> iterate (vec_of [1, 2, 3] 4)"
  by code_simp

section \<open>Move construction and move assignment\<close>

text \<open>
  Claim C3, as stated (move construction and move assignment never allocate and leave
  the source empty, with \<open>size == 0\<close>), holds for the constructor only. What the code
  does: neither operation touches the heap; move construction hands the source's storage
  and size to the new vector and leaves the source as a default-constructed vector (size
  0, capacity 0); move assignment between two different vectors swaps them, so the
  source is left with what the target held, and is empty exactly when the target was
  empty.
\<close>

theorem move_transfers_ownership:
  "(Vector_move other h = ((t, left), h') \<longrightarrow>
      allocs h' = allocs h \<and> h' = h \<and> t = other \<and> left = Vector_default \<and>
      size_m left = 0 \<and> Capacity left = 0) \<and>
   (this \<noteq> rhs \<and> assign_move this rhs (st, h) = (st', h') \<longrightarrow>
      allocs h' = allocs h \<and> h' = h \<and> st' this = st rhs \<and> st' rhs = st this \<and>
      (size_m (st' rhs) = 0 \<longleftrightarrow> size_m (st this) = 0))"
  by (auto simp: Vector_move_def assign_move_def Swap_eq Vector_default_def
                 RawMemory_default_def Capacity_def)

theorem move_transfers_ownership_witness:
  "Vector_move (vec_of [1, 2 :: int] 4) heap0 = ((vec_of [1, 2] 4, Vector_default), heap0) \<and>
   (0::nat) \<noteq> 1 \<and>
   assign_move 0 1 (store2 Vector_default (vec_of [1, 2 :: int] 4), heap0) =
     ((store2 Vector_default (vec_of [1, 2 :: int] 4))
        (0 := vec_of [1, 2] 4, 1 := Vector_default), heap0) \<and>
   size_m (((store2 Vector_default (vec_of [1, 2 :: int] 4))
        (0 := vec_of [1, 2] 4, 1 := Vector_default)) 1) = 0"
proof -
  have a: "Vector_move (vec_of [1, 2 :: int] 4) heap0 = ((vec_of [1, 2] 4, Vector_default), heap0)"
    by (simp add: Vector_move_def Swap_eq)
  have b: "(0::nat) \<noteq> 1" by simp
  have c: "assign_move 0 1 (store2 Vector_default (vec_of [1, 2 :: int] 4), heap0) =
     ((store2 Vector_default (vec_of [1, 2 :: int] 4))
        (0 := vec_of [1, 2] 4, 1 := Vector_default), heap0)"
    by (simp add: assign_move_def Swap_eq store2_def)
  from move_transfers_ownership
         [of "vec_of [1, 2 :: int] 4" heap0 "vec_of [1, 2] 4" Vector_default heap0 0 1
             "store2 Vector_default (vec_of [1, 2 :: int] 4)"
             "(store2 Vector_default (vec_of [1, 2 :: int] 4))
                (0 := vec_of [1, 2] 4, 1 := Vector_default)"]
       a b c
  show ?thesis by (simp add: store2_def Vector_default_def)
qed

text \<open>
  Move assignment onto a vector of three elements leaves the source with these three
  elements.
\<close>

theorem move_assign_source_not_empty_counterexample:
  "size_m (fst (assign_move 0 1 (store2 (vec_of [1, 2, 3 :: int] 4) (vec_of [7] 1), heap0)) 1) = 3"
  by (simp add: assign_move_def Swap_eq store2_def vec_of_def)

section \<open>The growth policy\<close>

text \<open>
  Claim C4, as stated, ends with "no operation on the buffer ever decreases its
  capacity", which move assignment contradicts. What holds: for every buffer whose size
  equals its capacity, a successful \<open>PushBack\<close>, \<open>EmplaceBack\<close>, \<open>Insert\<close> or \<open>Emplace\<close>
  results in exactly twice the previous capacity, or capacity 1 if the previous capacity
  was zero; and \<open>Reserve\<close>, \<open>Resize\<close>, \<open>PushBack\<close>, \<open>EmplaceBack\<close>, \<open>Insert\<close>, \<open>Emplace\<close>,
  \<open>Erase\<close>, \<open>PopBack\<close> and copy assignment never decrease the capacity of the buffer
  they are called on, whether they return or throw.
\<close>

theorem capacity_growth:
  "((is_append c \<or> is_insertion c) \<and> size_m v = Capacity v \<and>
      run_call T c (v, h) = Returned (v', h') \<longrightarrow>
      Capacity v' = (if Capacity v = 0 then 1 else 2 * Capacity v)) \<and>
   (run_call T c (v, h) = Returned (v', h') \<or> run_call T c (v, h) = Thrown e (v', h') \<longrightarrow>
      Capacity v \<le> Capacity v') \<and>
   (assign_copy T a b (st, h) = Returned (st', h') \<or>
    assign_copy T a b (st, h) = Thrown e (st', h') \<longrightarrow>
      Capacity (st a) \<le> Capacity (st' a))"
  using run_call_doubles [of T c v h v' h'] run_call_capacity_mono [of T c v h v' h' e]
        assign_copy_capacity [of T a b st h st' h' e]
  by blast

theorem capacity_growth_witness:
  "is_insertion (Call_Insert_copy 1 (9::int)) \<and>
   size_m (vec_of [1, 2 :: int] 2) = Capacity (vec_of [1, 2 :: int] 2) \<and>
   run_call int_type (Call_Insert_copy 1 9) (vec_of [1, 2] 2, heap0) =
     Returned (vec_of [1, 9, 2] 4, \<lparr>allocs = 1, avail = 62\<rparr>) \<and>
   Capacity (vec_of [1, 9, 2 :: int] 4) = 2 * Capacity (vec_of [1, 2 :: int] 2) \<and>
   assign_copy int_type 0 1 (store2 (vec_of [1, 1, 1] 3) (vec_of [7, 7, 7, 7, 7] 5), heap0) =
     Returned ((store2 (vec_of [1, 1, 1] 3) (vec_of [7, 7, 7, 7, 7] 5))
                 (0 := vec_of [7, 7, 7, 7, 7] 5), \<lparr>allocs = 1, avail = 62\<rparr>) \<and>
   Capacity (store2 (vec_of [1, 1, 1 :: int] 3) (vec_of [7, 7, 7, 7, 7] 5) 0) \<le>
     Capacity (((store2 (vec_of [1, 1, 1 :: int] 3) (vec_of [7, 7, 7, 7, 7] 5))
                 (0 := vec_of [7, 7, 7, 7, 7] 5)) 0)"
proof -
  have a: "is_insertion (Call_Insert_copy 1 (9::int))" by simp
  have b: "size_m (vec_of [1, 2 :: int] 2) = Capacity (vec_of [1, 2 :: int] 2)"
    by (simp add: vec_of_def Capacity_def)
  have c: "run_call int_type (Call_Insert_copy 1 9) (vec_of [1, 2] 2, heap0) =
     Returned (vec_of [1, 9, 2] 4, \<lparr>allocs = 1, avail = 62\<rparr>)"
    by code_simp
  have d: "assign_copy int_type 0 1
             (store2 (vec_of [1, 1, 1] 3) (vec_of [7, 7, 7, 7, 7] 5), heap0) =
     Returned ((store2 (vec_of [1, 1, 1] 3) (vec_of [7, 7, 7, 7, 7] 5))
                 (0 := vec_of [7, 7, 7, 7, 7] 5), \<lparr>allocs = 1, avail = 62\<rparr>)"
  proof -
    have vc: "Vector_copy int_type (vec_of [7, 7, 7, 7, 7] 5) heap0 =
                Returned (vec_of [7, 7, 7, 7, 7] 5, \<lparr>allocs = 1, avail = 59\<rparr>)"
      by code_simp
    have dt: "Vector_dtor (vec_of [1, 1, 1 :: int] 3) \<lparr>allocs = Suc 0, avail = 59\<rparr> =
                Some \<lparr>allocs = 1, avail = 62\<rparr>"
      by code_simp
    show ?thesis
      by (simp add: assign_copy_def store2_def Swap_eq vc dt vec_of_simps)
  qed
  from capacity_growth
         [of "Call_Insert_copy 1 9" "vec_of [1, 2] 2" int_type heap0 "vec_of [1, 9, 2] 4"
             "\<lparr>allocs = 1, avail = 62\<rparr>" elem_exception 0 1
             "store2 (vec_of [1, 1, 1] 3) (vec_of [7, 7, 7, 7, 7] 5)"
             "(store2 (vec_of [1, 1, 1] 3) (vec_of [7, 7, 7, 7, 7] 5))
                 (0 := vec_of [7, 7, 7, 7, 7] 5)"]
       a b c d
  show ?thesis by (simp add: vec_of_def Capacity_def)
qed

text \<open>
  Move assignment from a vector of capacity 1 onto a vector of capacity 4 leaves the
  target with capacity 1.
\<close>

theorem move_assign_shrinks_capacity_counterexample:
  "Capacity (fst (assign_move 0 1 (store2 (vec_of [1, 2, 3 :: int] 4) (vec_of [7] 1), heap0)) 0)
     < Capacity (store2 (vec_of [1, 2, 3 :: int] 4) (vec_of [7] 1) 0)"
  by (simp add: assign_move_def Swap_eq store2_def vec_of_def Capacity_def)

section \<open>Appending and reading back\<close>

text \<open>
  Claim C2: for every sequence of append operations (\<open>PushBack\<close>, \<open>EmplaceBack\<close>) that
  starts from a default-constructed buffer, after the sequence completes the size of the
  buffer equals the number of appends, and for every valid index \<open>i\<close>, reading index
  \<open>i\<close> yields the \<open>i\<close>-th appended value. The sequence never faults. It completes
  unless the allocator runs out of room, which it does not while three times the number
  of appends fits into the available slots, or a constructor of \<open>T\<close> throws, either the
  one that builds an appended element or the one that migrates it in a reallocation.
\<close>

theorem appends_read_back:
  assumes "list_all is_append cs"
  shows "case run_calls T cs (Vector_default, h) of
           Returned (v, h') \<Rightarrow>
             Size v = length cs \<and>
             (\<forall>i<length cs. Vector_index v i = appended (cs ! i) \<and> appended (cs ! i) \<noteq> None)
         | Thrown e s \<Rightarrow>
             (e = bad_alloc \<and> avail h < 3 * length cs) \<or>
             (e = elem_exception \<and> \<not> list_all (append_quiet T) cs)
         | Fault \<Rightarrow> False"
proof (cases "run_calls T cs (Vector_default, h)")
  case (Returned p)
  obtain v h' where p: "p = (v, h')" by (cases p)
  note R = run_calls_appends [OF Vector_inv_default assms Returned [unfolded p]]
  from R have it: "iterate v = map appended cs" by (simp add: iterate_default)
  then have "length (iterate v) = length cs" by simp
  then have sz: "size_m v = length cs" by simp
  have "Vector_index v i = appended (cs ! i) \<and> appended (cs ! i) \<noteq> None"
    if "i < length cs" for i
  proof -
    from R that sz have "Vector_index v i = iterate v ! i"
      by (simp add: Vector_index_iterate)
    moreover from R that have "appended (cs ! i) \<noteq> None" by (simp add: list_all_length)
    ultimately show ?thesis using it that by simp
  qed
  with sz Returned p show ?thesis by (simp add: Size_def)
next
  case (Thrown e s)
  with run_calls_appends_cases [OF Vector_inv_default assms, where T = T and h = h]
  show ?thesis
    by (simp add: Vector_default_def RawMemory_default_def Capacity_def)
next
  case Fault
  with run_calls_appends_cases [OF Vector_inv_default assms, where T = T and h = h]
  show ?thesis by simp
qed

theorem appends_read_back_witness:
  "list_all is_append
     [Call_PushBack_copy (1::int), Call_PushBack_move 2, Call_EmplaceBack (Some 3),
      Call_PushBack_copy 4, Call_EmplaceBack (Some 5)] \<and>
   run_calls int_type
     [Call_PushBack_copy 1, Call_PushBack_move 2, Call_EmplaceBack (Some 3),
      Call_PushBack_copy 4, Call_EmplaceBack (Some 5)]
     (Vector_default, heap0) = Returned (vec_of [1, 2, 3, 4, 5] 8, \<lparr>allocs = 4, avail = 56\<rparr>) \<and>
   Size (vec_of [1, 2, 3, 4, 5 :: int] 8) = 5 \<and>
   Vector_index (vec_of [1, 2, 3, 4, 5 :: int] 8) 0 = Some 1 \<and>
   Vector_index (vec_of [1, 2, 3, 4, 5 :: int] 8) 1 = Some 2 \<and>
   Vector_index (vec_of [1, 2, 3, 4, 5 :: int] 8) 2 = Some 3 \<and>
   Vector_index (vec_of [1, 2, 3, 4, 5 :: int] 8) 3 = Some 4 \<and>
   Vector_index (vec_of [1, 2, 3, 4, 5 :: int] 8) 4 = Some 5 \<and>
   list_all (append_quiet int_type)
     [Call_PushBack_copy (1::int), Call_PushBack_move 2, Call_EmplaceBack (Some 3),
      Call_PushBack_copy 4, Call_EmplaceBack (Some 5)] \<and>
   \<not> avail heap0 < 3 * 5"
proof -
  let ?cs = "[Call_PushBack_copy (1::int), Call_PushBack_move 2, Call_EmplaceBack (Some 3),
      Call_PushBack_copy 4, Call_EmplaceBack (Some 5)]"
  have a: "list_all is_append ?cs" by simp
  have b: "run_calls int_type ?cs (Vector_default, heap0) =
             Returned (vec_of [1, 2, 3, 4, 5] 8, \<lparr>allocs = 4, avail = 56\<rparr>)"
    by code_simp
  have c: "list_all (append_quiet int_type) ?cs" by code_simp
  have d: "\<not> avail heap0 < 3 * 5" by code_simp
  note R = appends_read_back [OF a, where T = int_type and h = heap0, unfolded b, simplified]
  note I = R [THEN conjunct2, rule_format]
  from R I [of 0] I [of 1] I [of 2] I [of 3] I [of 4] a b c d show ?thesis by simp
qed

section \<open>Inserting and erasing at the same position\<close>

text \<open>
  Claim C5: for every buffer and every valid insertion position \<open>pos\<close> in \<open>[0, size]\<close>,
  inserting a value at \<open>pos\<close> and then erasing at \<open>pos\<close> restores the original sequence
  of element values and the original size. The code does not do this when the buffer
  has spare capacity and a move changes its source: \<open>Emplace\<close> move-constructs the last
  element into the new trailing slot and then runs \<open>move_backward\<close> over the range that
  still includes this last, now moved-from element, which overwrites the new trailing
  slot with the moved-from state. With an element type like \<open>std::string\<close>, the
  buffer \<open>["a", "b"]\<close> of capacity 4 becomes \<open>["x", "a", ""]\<close> after \<open>Insert\<close> of
  \<open>"x"\<close> at the front and \<open>["a", ""]\<close> after the following \<open>Erase\<close>.
\<close>

theorem Insert_then_Erase_loses_last_element:
  "Vector_inv (vec_of [''a'', ''b''] 4) \<and>
   Insert_copy string_type 0 ''x'' (vec_of [''a'', ''b''] 4, heap0) =
     Returned (0, vec_of [''x'', ''a'', ''''] 4, heap0) \<and>
   Erase string_type 0 (vec_of [''x'', ''a'', ''''] 4, heap0) =
     Returned (0, vec_of [''a'', ''''] 4, heap0) \<and>
   iterate (vec_of [''a'', ''''] 4) = [Some ''a'', Some ''''] \<and>
   iterate (vec_of [''a'', ''b''] 4) = [Some ''a'', Some ''b'']"
  by code_simp

section \<open>Erasing one element\<close>

text \<open>
  Claim C6, as stated (for every non-empty buffer and every position \<open>pos\<close> in
  \<open>[0, size)\<close>, \<open>Erase\<close> at \<open>pos\<close> produces the original sequence with the element at
  \<open>pos\<close> removed and decreases the size by exactly 1), does not hold for an element type
  whose move assignment throws: \<open>Erase\<close> is \<open>noexcept\<close> only if \<open>T\<close> is nothrow move
  assignable. What holds: \<open>Erase\<close> at a position in \<open>[0, size)\<close> never faults, never changes
  the capacity and never reallocates (it leaves the heap as it is). It returns exactly
  when none of the move assignments that shift \<open>[pos + 1, size)\<close> toward the front
  throws; then it has produced the original sequence with the element at \<open>pos\<close> removed
  and decreased the size by exactly 1, and it returns an iterator that refers to position
  \<open>pos\<close>, where the element that followed the erased one now is. When the move assignment
  onto slot \<open>j\<close> is the first that throws, the call leaves by this exception with the
  size unchanged and the invariant intact: the elements in \<open>[pos, j)\<close> are those that
  followed them, the elements before \<open>pos\<close> and behind \<open>j\<close> are as they were.
\<close>

theorem Erase_removes_element:
  assumes "Vector_inv v" and "pos < size_m v"
  shows "case Erase T pos (v, h) of
           Returned (it, v', h') \<Rightarrow>
             iterate v' = take pos (iterate v) @ drop (Suc pos) (iterate v) \<and>
             size_m v' = size_m v - 1 \<and> Capacity v' = Capacity v \<and> h' = h \<and>
             it = Vector_begin v' + pos \<and> Vector_inv v' \<and>
             (Suc pos < size_m v \<longrightarrow> Vector_index v' pos = Vector_index v (Suc pos)) \<and>
             (\<forall>j. pos \<le> j \<and> Suc j < size_m v \<longrightarrow> \<not> shift_throws_at T (GetAddress v) pos j)
         | Thrown e (v', h') \<Rightarrow>
             e = elem_exception \<and> size_m v' = size_m v \<and> Capacity v' = Capacity v \<and> h' = h \<and>
             Vector_inv v' \<and>
             (\<exists>j. pos \<le> j \<and> Suc j < size_m v \<and> shift_throws_at T (GetAddress v) pos j \<and>
                  (\<forall>i. pos \<le> i \<and> i < j \<longrightarrow>
                       \<not> shift_throws_at T (GetAddress v) pos i \<and>
                       iterate v' ! i = iterate v ! Suc i) \<and>
                  (\<forall>i<size_m v. i < pos \<or> j < i \<longrightarrow> iterate v' ! i = iterate v ! i))
         | Fault \<Rightarrow> False"
proof -
  let ?s = "GetAddress v" and ?n = "size_m v - Suc pos"
  from assms(1) have len: "length ?s = Capacity v" and le: "size_m v \<le> Capacity v"
    and none: "\<forall>i<Capacity v. (?s ! i = None) = (size_m v \<le> i)"
    by (simp_all add: Vector_inv_iff)
  have std: "std_move T ?s (Vector_begin v + (pos - Vector_begin v) + 1) (Vector_end v)
               (Vector_begin v + (pos - Vector_begin v)) = move_loop T ?s (Suc pos) ?n pos"
    using assms(2) by (simp add: std_move_def Vector_begin_def Vector_end_def)
  have p1: "Suc pos + ?n \<le> length ?s" using assms(2) le len by simp
  have live: "?s ! j \<noteq> None" if "j < size_m v" for j
  proof -
    from that le have "j < Capacity v" by simp
    with none that show ?thesis by simp
  qed
  have p2: "\<forall>j. pos \<le> j \<and> j \<le> pos + ?n \<longrightarrow> ?s ! j \<noteq> None"
  proof (intro allI impI)
    fix j assume "pos \<le> j \<and> j \<le> pos + ?n"
    with assms(2) have "j < size_m v" by linarith
    then show "?s ! j \<noteq> None" by (rule live)
  qed
  note L = move_loop_shift[OF p1 p2, of T]
  have last_eq: "pos + ?n = size_m v - 1" using assms(2) by simp
  show ?thesis
  proof (cases "move_loop T ?s (Suc pos) ?n pos")
    case (Returned r)
    with L last_eq have rlen: "length r = length ?s"
      and out: "\<forall>j<length ?s. j < pos \<or> size_m v - 1 < j \<longrightarrow> r ! j = ?s ! j"
      and sh: "\<forall>j. pos \<le> j \<and> j < size_m v - 1 \<longrightarrow> r ! j = ?s ! Suc j"
      and lst: "r ! (size_m v - 1) \<noteq> None"
      and nt: "\<forall>j. pos \<le> j \<and> j < size_m v - 1 \<longrightarrow> \<not> shift_throws_at T ?s pos j"
      by simp_all
    have quiet: "\<forall>j. pos \<le> j \<and> Suc j < size_m v \<longrightarrow> \<not> shift_throws_at T ?s pos j"
    proof (intro allI impI)
      fix j assume "pos \<le> j \<and> Suc j < size_m v"
      then have "pos \<le> j \<and> j < size_m v - 1" by linarith
      with nt show "\<not> shift_throws_at T ?s pos j" by simp
    qed
    let ?r' = "r[size_m v - 1 := None]"
    let ?v' = "(with_slots v ?r')\<lparr>size_m := size_m v - 1\<rparr>"
    have pop: "PopBack (with_slots v r, h) = Returned (?v', h)"
      using assms(2) lst rlen len le
      by (auto simp: PopBack_def destroy_at_def rd_def with_slots_def split: option.splits)
    have er: "Erase T pos (v, h) = Returned (Vector_begin ?v' + pos, ?v', h)"
      using std Returned pop by (simp add: Erase_def Let_def Vector_begin_def)
    have slots: "?r' ! i = (if i < pos then ?s ! i else if i < size_m v - 1 then ?s ! Suc i
                            else None)" if "i < Capacity v" for i
    proof -
      consider "i < pos" | "pos \<le> i \<and> i < size_m v - 1" | "i = size_m v - 1" | "size_m v - 1 < i"
        by linarith
      then show ?thesis
      proof cases
        case 1
        with assms(2) have "i \<noteq> size_m v - 1" by linarith
        moreover from out that len 1 have "r ! i = ?s ! i" by simp
        ultimately show ?thesis using 1 by (simp add: nth_list_update)
      next
        case 2
        then have "i \<noteq> size_m v - 1" "\<not> i < pos" by linarith+
        moreover from sh 2 have "r ! i = ?s ! Suc i" by simp
        ultimately show ?thesis using 2 by (simp add: nth_list_update)
      next
        case 3
        with assms(2) have "\<not> i < pos" "\<not> i < size_m v - 1" by linarith+
        with 3 that len rlen show ?thesis by simp
      next
        case 4
        with assms(2) have "size_m v \<le> i" "\<not> i < pos" "\<not> i < size_m v - 1"
          "i \<noteq> size_m v - 1" by linarith+
        moreover from out that len 4 have "r ! i = ?s ! i" by simp
        ultimately show ?thesis using none that by (simp add: nth_list_update)
      qed
    qed
    have inv': "Vector_inv ?v'"
      unfolding Vector_inv_iff
    proof (intro conjI allI impI)
      show "length (GetAddress ?v') = Capacity ?v'" using rlen len by simp
      show "size_m ?v' \<le> Capacity ?v'" using le by simp
      fix i assume "i < Capacity ?v'"
      then have i: "i < Capacity v" by simp
      have "(?r' ! i = None) = (size_m v - 1 \<le> i)"
        using slots[OF i] none i assms(2) le by auto
      then show "(GetAddress ?v' ! i = None) = (size_m ?v' \<le> i)" by simp
    qed
    have it: "iterate ?v' = take pos (iterate v) @ drop (Suc pos) (iterate v)"
    proof (rule nth_equalityI)
      show "length (iterate ?v') = length (take pos (iterate v) @ drop (Suc pos) (iterate v))"
        using assms(2) by simp
      fix i assume "i < length (iterate ?v')"
      then have i: "i < size_m v - 1" by simp
      then have ic: "i < Capacity v" using le by simp
      have "iterate ?v' ! i = ?r' ! i" using i ic rlen len by (simp add: nth_iterate rd_def)
      also have "\<dots> = (if i < pos then ?s ! i else ?s ! Suc i)" using slots[OF ic] i by simp
      also have "\<dots> = (take pos (iterate v) @ drop (Suc pos) (iterate v)) ! i"
      proof -
        from i le have "Suc i < Capacity v" "Suc i < size_m v" "i < size_m v" by linarith+
        then show ?thesis
          using i assms(2) len by (simp add: nth_append nth_iterate rd_def min_def)
      qed
      finally show "iterate ?v' ! i = (take pos (iterate v) @ drop (Suc pos) (iterate v)) ! i" .
    qed
    have idx: "Vector_index ?v' pos = Vector_index v (Suc pos)" if "Suc pos < size_m v"
    proof -
      have "Vector_index ?v' pos = iterate ?v' ! pos"
        using inv' that by (simp add: Vector_index_iterate)
      also have "\<dots> = iterate v ! Suc pos"
        using it that by (simp add: nth_append min_def)
      also have "\<dots> = Vector_index v (Suc pos)"
        using assms(1) that by (simp add: Vector_index_iterate)
      finally show ?thesis .
    qed
    from er it inv' idx quiet show ?thesis by simp
  next
    case (Thrown e r)
    with L last_eq obtain j where e: "e = elem_exception" and rlen: "length r = length ?s"
      and j: "pos \<le> j" "j < size_m v - 1" "shift_throws_at T ?s pos j"
      and before: "\<forall>i. pos \<le> i \<and> i < j \<longrightarrow> \<not> shift_throws_at T ?s pos i \<and> r ! i = ?s ! Suc i"
      and out: "\<forall>i<length ?s. i < pos \<or> j < i \<longrightarrow> r ! i = ?s ! i"
      and rj: "r ! j \<noteq> None"
      by auto
    let ?v' = "with_slots v r"
    have er: "Erase T pos (v, h) = Thrown e (?v', h)"
      using std Thrown by (simp add: Erase_def Let_def)
    from j have sj: "Suc j < size_m v" by linarith
    have out': "r ! i = ?s ! i" if "i < Capacity v" "i < pos \<or> j < i" for i
    proof -
      from that(1) len have "i < length ?s" by simp
      from out [rule_format, OF this that(2)] show ?thesis .
    qed
    have before': "r ! i = ?s ! Suc i" if "pos \<le> i \<and> i < j" for i
      using before [rule_format, OF that] by simp
    have same: "(r ! i = None) = (?s ! i = None)" if "i < Capacity v" for i
    proof -
      consider "i < pos \<or> j < i" | "pos \<le> i \<and> i < j" | "i = j" by linarith
      then show ?thesis
      proof cases
        case 1
        with out' [OF that] show ?thesis by simp
      next
        case 2
        with sj have "i < size_m v" "Suc i < size_m v" by linarith+
        with before' [OF 2] live [of i] live [of "Suc i"] show ?thesis by auto
      next
        case 3
        with sj have "i < size_m v" by linarith
        with rj 3 live [of i] show ?thesis by auto
      qed
    qed
    have inv': "Vector_inv ?v'"
      unfolding Vector_inv_iff
    proof (intro conjI allI impI)
      show "length (GetAddress ?v') = Capacity ?v'" using rlen len by simp
      show "size_m ?v' \<le> Capacity ?v'" using le by simp
      fix i assume "i < Capacity ?v'"
      then have i: "i < Capacity v" by simp
      from same [OF i] none i
      show "(GetAddress ?v' ! i = None) = (size_m ?v' \<le> i)" by simp
    qed
    have shifted: "\<not> shift_throws_at T ?s pos i \<and> iterate ?v' ! i = iterate v ! Suc i"
      if "pos \<le> i \<and> i < j" for i
    proof -
      from that sj have "i < size_m v" "Suc i < size_m v" by linarith+
      moreover with le have "i < Capacity v" "Suc i < Capacity v" by linarith+
      ultimately show ?thesis
        using before [rule_format, OF that] before' [OF that] rlen len
        by (simp add: nth_iterate rd_def)
    qed
    have kept: "iterate ?v' ! i = iterate v ! i" if "i < size_m v" "i < pos \<or> j < i" for i
    proof -
      from that le have "i < Capacity v" by linarith
      with out' [OF this that(2)] that rlen len show ?thesis
        by (simp add: nth_iterate rd_def)
    qed
    have "\<exists>j. pos \<le> j \<and> Suc j < size_m v \<and> shift_throws_at T ?s pos j \<and>
              (\<forall>i. pos \<le> i \<and> i < j \<longrightarrow>
                   \<not> shift_throws_at T ?s pos i \<and> iterate ?v' ! i = iterate v ! Suc i) \<and>
              (\<forall>i<size_m v. i < pos \<or> j < i \<longrightarrow> iterate ?v' ! i = iterate v ! i)"
      using j sj shifted kept by (intro exI [of _ j]) auto
    with er e inv' show ?thesis by simp
  next
    case Fault
    with L show ?thesis by simp
  qed
qed

theorem Erase_removes_element_witness:
  "Vector_inv (vec_of [1, 2, 3 :: int] 4) \<and> 1 < size_m (vec_of [1, 2, 3 :: int] 4) \<and>
   Suc 1 < size_m (vec_of [1, 2, 3 :: int] 4) \<and>
   Erase int_type 1 (vec_of [1, 2, 3] 4, heap0) = Returned (1, vec_of [1, 3] 4, heap0) \<and>
   iterate (vec_of [1, 3 :: int] 4) =
     take 1 (iterate (vec_of [1, 2, 3] 4)) @ drop (Suc 1) (iterate (vec_of [1, 2, 3] 4)) \<and>
   Vector_index (vec_of [1, 3 :: int] 4) 1 = Vector_index (vec_of [1, 2, 3] 4) (Suc 1) \<and>
   \<not> shift_throws_at int_type (GetAddress (vec_of [1, 2, 3] 4)) 1 1 \<and>
   Vector_inv (vec_of [5, 7, 1 :: int] 4) \<and> 0 < size_m (vec_of [5, 7, 1 :: int] 4) \<and>
   Erase shift_throw_type 0 (vec_of [5, 7, 1] 4, heap0) =
     Thrown elem_exception (vec_of [7, 7, 1] 4, heap0) \<and>
   shift_throws_at shift_throw_type (GetAddress (vec_of [5, 7, 1] 4)) 0 1 \<and>
   \<not> shift_throws_at shift_throw_type (GetAddress (vec_of [5, 7, 1] 4)) 0 0 \<and>
   Vector_inv (vec_of [7, 7, 1 :: int] 4)"
proof -
  have a: "Vector_inv (vec_of [1, 2, 3 :: int] 4)" by code_simp
  have b: "1 < size_m (vec_of [1, 2, 3 :: int] 4)" by (simp add: vec_of_simps)
  have c: "Erase int_type 1 (vec_of [1, 2, 3] 4, heap0) = Returned (1, vec_of [1, 3] 4, heap0)"
    by code_simp
  have a2: "Vector_inv (vec_of [5, 7, 1 :: int] 4)" by code_simp
  have b2: "0 < size_m (vec_of [5, 7, 1 :: int] 4)" by (simp add: vec_of_simps)
  have c2: "Erase shift_throw_type 0 (vec_of [5, 7, 1] 4, heap0) =
              Thrown elem_exception (vec_of [7, 7, 1] 4, heap0)"
    by code_simp
  have d2: "shift_throws_at shift_throw_type (GetAddress (vec_of [5, 7, 1] 4)) 0 1 \<and>
            \<not> shift_throws_at shift_throw_type (GetAddress (vec_of [5, 7, 1] 4)) 0 0"
    by code_simp
  note R1 = Erase_removes_element [OF a b, where T = int_type and h = heap0, unfolded c,
                                   simplified]
  note R2 = Erase_removes_element [OF a2 b2, where T = shift_throw_type and h = heap0,
                                   unfolded c2, simplified]
  from R1 R2 a b c a2 b2 c2 d2 show ?thesis
    by (simp add: vec_of_simps)
qed

text \<open>
  \<open>Erase\<close> at the front of \<open>[5, 7, 1]\<close>, for an element type whose move assignment throws
  when the source holds 1: the first move assignment has put 7 into slot 0, the second
  throws, and the buffer is left with size 3 and the contents \<open>[7, 7, 1]\<close>.
\<close>

theorem Erase_throws_counterexample:
  "Vector_inv (vec_of [5, 7, 1 :: int] 4) \<and> 0 < size_m (vec_of [5, 7, 1 :: int] 4) \<and>
   Erase shift_throw_type 0 (vec_of [5, 7, 1] 4, heap0) =
     Thrown elem_exception (vec_of [7, 7, 1] 4, heap0) \<and>
   size_m (vec_of [7, 7, 1 :: int] 4) = 3 \<and>
   iterate (vec_of [7, 7, 1 :: int] 4) = [Some 7, Some 7, Some 1]"
  by code_simp

section \<open>Copy assignment between two buffers\<close>

text \<open>
  Claim C7: for every pair of distinct buffers \<open>A\<close> (at address \<open>this\<close>) and \<open>B\<close> (at
  address \<open>rhs\<close>), after copy-assigning \<open>B\<close> into \<open>A\<close>, the size of \<open>A\<close> equals the
  size of \<open>B\<close> and the elements of \<open>A\<close> are element-wise equal to those of \<open>B\<close>, while
  \<open>B\<close> (like every other vector in the store) is unchanged in size, capacity and
  elements. When the element count of \<open>B\<close> exceeds the capacity of \<open>A\<close>, a new buffer
  of exactly that capacity is allocated and built from \<open>B\<close> and then swapped in, and
  \<open>A\<close> is untouched until it is complete: a failure on the way leaves the whole store as
  it was. The call never faults, and \<open>A\<close> satisfies the class invariant however it
  ends. It returns unless the allocator cannot provide the new block, the copy
  constructor of \<open>T\<close> throws for an element of \<open>B\<close> that has to be constructed, or the
  copy assignment of \<open>T\<close> throws for an element of \<open>B\<close> onto the element of \<open>A\<close> at the
  same index.
\<close>

theorem copy_assign_distinct:
  assumes ne: "this \<noteq> rhs" and invA: "Vector_inv (st this)" and invB: "Vector_inv (st rhs)"
  shows "case assign_copy T this rhs (st, h) of
           Returned (st', h') \<Rightarrow>
             Size (st' this) = Size (st rhs) \<and> iterate (st' this) = iterate (st rhs) \<and>
             Vector_inv (st' this) \<and> (\<forall>p. p \<noteq> this \<longrightarrow> st' p = st p) \<and>
             (Capacity (st this) < size_m (st rhs) \<longrightarrow>
                Capacity (st' this) = size_m (st rhs) \<and> allocs h' = Suc (allocs h))
         | Thrown e (st', h') \<Rightarrow>
             Vector_inv (st' this) \<and> (\<forall>p. p \<noteq> this \<longrightarrow> st' p = st p) \<and>
             (Capacity (st this) < size_m (st rhs) \<longrightarrow> st' = st) \<and>
             ((e = bad_alloc \<and> Capacity (st this) < size_m (st rhs) \<and>
               avail h < size_m (st rhs)) \<or>
              (e = elem_exception \<and>
               (\<exists>i<size_m (st rhs). \<exists>x.
                   (Capacity (st this) < size_m (st rhs) \<or> size_m (st this) \<le> i) \<and>
                   GetAddress (st rhs) ! i = Some x \<and> copy_ctor_throws T x)) \<or>
              (e = elem_exception \<and> \<not> Capacity (st this) < size_m (st rhs) \<and>
               (\<exists>i x y. i < size_m (st this) \<and> i < size_m (st rhs) \<and>
                   GetAddress (st this) ! i = Some y \<and> GetAddress (st rhs) ! i = Some x \<and>
                   copy_assign_throws T y x)))
         | Fault \<Rightarrow> False"
proof -
  define A where "A = st this"
  define B where "B = st rhs"
  define sA where "sA = GetAddress A"
  define sB where "sB = GetAddress B"
  define nA where "nA = size_m A"
  define nB where "nB = size_m B"
  note defs = A_def B_def sA_def sB_def nA_def nB_def
  have lenA: "length sA = Capacity A" and leA: "nA \<le> Capacity A"
    using Vector_inv_length [OF invA] Vector_inv_le [OF invA] by (simp_all add: defs)
  have lenB: "length sB = Capacity B" and leB: "nB \<le> Capacity B"
    using Vector_inv_length [OF invB] Vector_inv_le [OF invB] by (simp_all add: defs)
  have liveA: "sA ! i \<noteq> None" if "i < nA" for i
    using Vector_inv_live [OF invA, of i] that by (simp add: defs)
  have deadA: "sA ! i = None" if "nA \<le> i" "i < Capacity A" for i
    using Vector_inv_dead [OF invA, of i] that by (simp add: defs)
  have liveB: "sB ! i \<noteq> None" if "i < nB" for i
    using Vector_inv_live [OF invB, of i] that by (simp add: defs)
  show ?thesis
  proof (cases "Capacity A < nB")
    case True
    note big = True
    show ?thesis
    proof (cases "Vector_copy T B h")
      case (Returned p)
      obtain c h1 where p: "p = (c, h1)" by (cases p)
      from Vector_copy_cases [OF invB, where T = T and h = h] Returned p
      have c: "Vector_inv c" "size_m c = nB" "Capacity c = nB" "iterate c = iterate B"
        and al: "allocs h1 = (if nB = 0 then allocs h else Suc (allocs h))"
        by (simp_all add: defs)
      from Vector_dtor_inv [OF invA, where h = h1] obtain h2 where
        h2: "Vector_dtor A h1 = Some h2" "allocs h2 = allocs h1" by (auto simp: defs)
      have "assign_copy T this rhs (st, h) = Returned (st(this := c), h2)"
        using ne big Returned p h2
        by (simp add: assign_copy_def Swap_eq defs Capacity_def)
      with c al h2 big show ?thesis by (auto simp: Size_def defs)
    next
      case (Thrown e h1)
      have res: "assign_copy T this rhs (st, h) = Thrown e (st, h1)"
        using ne big Thrown by (simp add: assign_copy_def defs Capacity_def)
      from Vector_copy_Thrown_cause [OF Thrown]
      have "(e = bad_alloc \<and> avail h < nB) \<or>
            (e = elem_exception \<and> (\<exists>i<nB. \<exists>x. sB ! i = Some x \<and> copy_ctor_throws T x))"
        by (simp add: defs)
      with res invA big show ?thesis by (auto simp: defs)
    next
      case Fault
      with Vector_copy_cases [OF invB, where T = T and h = h] show ?thesis by (simp add: defs)
    qed
  next
    case False
    then have fits: "nB \<le> Capacity A" by simp
    show ?thesis
    proof (cases "nB < nA")
      case True
      note shrink = True
      have nf: "copy_loop T sB 0 nB sA 0 \<noteq> Fault"
      proof (rule copy_loop_not_Fault)
        show "0 + nB \<le> length sB" using leB lenB by simp
        show "\<forall>i<nB. sB ! (0 + i) \<noteq> None" using liveB by simp
        show "0 + nB \<le> length sA" using fits lenA by simp
        show "\<forall>i<nB. sA ! (0 + i) \<noteq> None" using liveA shrink by simp
      qed
      show ?thesis
      proof (cases "copy_loop T sB 0 nB sA 0")
        case (Returned b)
        from copy_loop_Returned [OF Returned]
        have blen: "length b = length sA" and beq: "\<forall>i<nB. b ! i = sB ! i"
          and bout: "\<forall>j<length sA. nB \<le> j \<longrightarrow> b ! j = sA ! j" by simp_all
        have "\<exists>r. destroy_n b nB (nA - nB) = Some r"
        proof (rule destroy_n_live)
          show "nB + (nA - nB) \<le> length b" using shrink leA lenA blen by simp
          show "\<forall>j. nB \<le> j \<and> j < nB + (nA - nB) \<longrightarrow> b ! j \<noteq> None"
          proof (intro allI impI)
            fix j assume j: "nB \<le> j \<and> j < nB + (nA - nB)"
            with shrink have "j < nA" by simp
            moreover with leA lenA have "j < length sA" by simp
            ultimately show "b ! j \<noteq> None" using bout j liveA by simp
          qed
        qed
        then obtain b1 where b1: "destroy_n b nB (nA - nB) = Some b1" by blast
        from destroy_n_Some [OF b1] blen
        have b1len: "length b1 = length sA"
          and b1eq: "\<forall>j<length sA. b1 ! j = (if nB \<le> j \<and> j < nB + (nA - nB) then None else b ! j)"
          by simp_all
        let ?A' = "(with_slots A b1)\<lparr>size_m := nB\<rparr>"
        have res: "assign_copy T this rhs (st, h) = Returned (st(this := ?A'), h)"
          using ne False shrink Returned b1
          by (simp add: assign_copy_def std_copy_def defs Capacity_def)
        have slot_lo: "b1 ! i = sB ! i" if "i < nB" for i
          using that b1eq beq fits lenA by simp
        have slot_hi: "b1 ! i = None" if "nB \<le> i" "i < Capacity A" for i
        proof (cases "i < nA")
          case True
          with that b1eq lenA show ?thesis by simp
        next
          case False
          with that b1eq bout lenA deadA [of i] show ?thesis by simp
        qed
        have inv': "Vector_inv ?A'"
        proof (rule Vector_invI)
          show "length (GetAddress ?A') = Capacity ?A'" using b1len lenA by simp
          show "size_m ?A' \<le> Capacity ?A'" using fits by simp
          show "GetAddress ?A' ! i \<noteq> None" if "i < size_m ?A'" for i
            using that slot_lo [of i] liveB [of i] by simp
          show "GetAddress ?A' ! i = None" if "size_m ?A' \<le> i" "i < Capacity ?A'" for i
            using that slot_hi [of i] by simp
        qed
        have it: "iterate ?A' = iterate B"
        proof (rule iterate_eqI)
          show "size_m ?A' = size_m B" by (simp add: defs)
          show "rd (GetAddress ?A') i = rd (GetAddress B) i" if "i < size_m B" for i
            using that slot_lo [of i] b1len lenA lenB leB fits
            by (simp add: rd_def defs)
        qed
        from res inv' it False show ?thesis by (simp add: Size_def defs)
      next
        case (Thrown e b)
        from copy_loop_Thrown [OF Thrown]
        have blen: "length b = length sA"
          and bl: "\<forall>j<length sA. (sA ! j = None) = (b ! j = None)" by simp_all
        have res: "assign_copy T this rhs (st, h) = Thrown e (st(this := with_slots A b), h)"
          using ne False shrink Thrown
          by (simp add: assign_copy_def std_copy_def defs Capacity_def)
        from copy_loop_Thrown_cause [OF Thrown]
        obtain i x y where e: "e = elem_exception" and i: "i < nB"
          and xy: "sB ! i = Some x" "sA ! i = Some y" "copy_assign_throws T y x" by auto
        from i shrink have "i < nA" by simp
        with e i xy
        have cause: "e = elem_exception \<and>
                     (\<exists>i x y. i < nA \<and> i < nB \<and> sA ! i = Some y \<and> sB ! i = Some x \<and>
                              copy_assign_throws T y x)"
          by blast
        have inv': "Vector_inv (with_slots A b)"
        proof (rule Vector_invI)
          show "length (GetAddress (with_slots A b)) = Capacity (with_slots A b)"
            using blen lenA by simp
          show "size_m (with_slots A b) \<le> Capacity (with_slots A b)" using leA by (simp add: defs)
          show "GetAddress (with_slots A b) ! i \<noteq> None" if "i < size_m (with_slots A b)" for i
          proof -
            from that have i: "i < nA" by (simp add: defs)
            with leA lenA have "i < length sA" by simp
            with bl liveA [OF i] show ?thesis by simp
          qed
          show "GetAddress (with_slots A b) ! i = None"
            if "size_m (with_slots A b) \<le> i" "i < Capacity (with_slots A b)" for i
          proof -
            from that have i: "nA \<le> i" "i < Capacity A" by (simp_all add: defs)
            with bl deadA [OF i] lenA show ?thesis by simp
          qed
        qed
        from res inv' False cause show ?thesis by (auto simp: defs)
      next
        case Fault
        with nf show ?thesis by simp
      qed
    next
      case False
      then have grow: "nA \<le> nB" by simp
      note noshrink = False
      have nf: "copy_loop T sB 0 nA sA 0 \<noteq> Fault"
      proof (rule copy_loop_not_Fault)
        show "0 + nA \<le> length sB" using leB lenB grow by simp
        show "\<forall>i<nA. sB ! (0 + i) \<noteq> None" using liveB grow by simp
        show "0 + nA \<le> length sA" using leA lenA by simp
        show "\<forall>i<nA. sA ! (0 + i) \<noteq> None" using liveA by simp
      qed
      show ?thesis
      proof (cases "copy_loop T sB 0 nA sA 0")
        case (Returned b)
        from copy_loop_Returned [OF Returned]
        have blen: "length b = length sA" and beq: "\<forall>i<nA. b ! i = sB ! i"
          and bout: "\<forall>j<length sA. nA \<le> j \<longrightarrow> b ! j = sA ! j" by simp_all
        have bdead: "b ! j = None" if "nA \<le> j" "j < Capacity A" for j
          using that bout deadA [of j] lenA by simp
        have nf2: "uninitialized_copy_n T sB nA (nB - nA) b nA \<noteq> Fault"
        proof (rule uninitialized_copy_n_not_Fault)
          show "nA + (nB - nA) \<le> length sB" using grow leB lenB by simp
          show "\<forall>i<nB - nA. sB ! (nA + i) \<noteq> None" using liveB by simp
          show "nA + (nB - nA) \<le> length b" using grow fits blen lenA by simp
        qed
        show ?thesis
        proof (cases "uninitialized_copy_n T sB nA (nB - nA) b nA")
          case r2: (Returned b1)
          from uninitialized_copy_n_Returned [OF r2] blen
          have b1len: "length b1 = length sA"
            and b1eq: "\<forall>i<nB - nA. b1 ! (nA + i) = sB ! (nA + i)"
            and b1out: "\<forall>j<length sA. j < nA \<or> nA + (nB - nA) \<le> j \<longrightarrow> b1 ! j = b ! j"
            by simp_all
          let ?A' = "(with_slots A b1)\<lparr>size_m := nB\<rparr>"
          have res: "assign_copy T this rhs (st, h) = Returned (st(this := ?A'), h)"
            using ne \<open>\<not> Capacity A < nB\<close> noshrink Returned r2
            by (simp add: assign_copy_def std_copy_def defs Capacity_def)
          have slot_lo: "b1 ! i = sB ! i" if "i < nB" for i
          proof (cases "i < nA")
            case True
            with b1out beq leA lenA show ?thesis by simp
          next
            case False
            with that have "i - nA < nB - nA" by simp
            with b1eq [rule_format, of "i - nA"] False show ?thesis by simp
          qed
          have slot_hi: "b1 ! i = None" if "nB \<le> i" "i < Capacity A" for i
            using that b1out bdead [of i] grow lenA by simp
          have inv': "Vector_inv ?A'"
          proof (rule Vector_invI)
            show "length (GetAddress ?A') = Capacity ?A'" using b1len lenA by simp
            show "size_m ?A' \<le> Capacity ?A'" using fits by simp
            show "GetAddress ?A' ! i \<noteq> None" if "i < size_m ?A'" for i
              using that slot_lo [of i] liveB [of i] by simp
            show "GetAddress ?A' ! i = None" if "size_m ?A' \<le> i" "i < Capacity ?A'" for i
              using that slot_hi [of i] by simp
          qed
          have it: "iterate ?A' = iterate B"
          proof (rule iterate_eqI)
            show "size_m ?A' = size_m B" by (simp add: defs)
            show "rd (GetAddress ?A') i = rd (GetAddress B) i" if "i < size_m B" for i
              using that slot_lo [of i] b1len lenA lenB leB fits
              by (simp add: rd_def defs)
          qed
          from res inv' it \<open>\<not> Capacity A < nB\<close> show ?thesis by (simp add: Size_def defs)
        next
          case t2: (Thrown e b1)
          have "b1 = b"
          proof (rule uninitialized_copy_n_Thrown [OF t2], intro allI impI)
            fix i assume "i < nB - nA" "nA + i < length b"
            then show "b ! (nA + i) = None" using bdead [of "nA + i"] blen lenA by simp
          qed
          with t2 have res: "assign_copy T this rhs (st, h) = Thrown e (st(this := with_slots A b), h)"
            using ne \<open>\<not> Capacity A < nB\<close> noshrink Returned
            by (simp add: assign_copy_def std_copy_def defs Capacity_def)
          have inv': "Vector_inv (with_slots A b)"
          proof (rule Vector_invI)
            show "length (GetAddress (with_slots A b)) = Capacity (with_slots A b)"
              using blen lenA by simp
            show "size_m (with_slots A b) \<le> Capacity (with_slots A b)"
              using leA by (simp add: defs)
            show "GetAddress (with_slots A b) ! i \<noteq> None" if "i < size_m (with_slots A b)" for i
            proof -
              from that have i: "i < nA" by (simp add: defs)
              with grow have "i < nB" by simp
              with beq i liveB [of i] show ?thesis by simp
            qed
            show "GetAddress (with_slots A b) ! i = None"
              if "size_m (with_slots A b) \<le> i" "i < Capacity (with_slots A b)" for i
              using that bdead [of i] by (simp add: defs)
          qed
          from uninitialized_copy_n_Thrown_cause [OF t2]
          obtain i x where e: "e = elem_exception" and i: "i < nB - nA"
            and x: "sB ! (nA + i) = Some x" "copy_ctor_throws T x" by blast
          from i have "nA + i < nB" "nA \<le> nA + i" by simp_all
          with x have cause: "\<exists>k<nB. \<exists>x. nA \<le> k \<and> sB ! k = Some x \<and> copy_ctor_throws T x"
            by blast
          from res inv' \<open>\<not> Capacity A < nB\<close> e cause show ?thesis by (auto simp: defs)
        next
          case Fault
          with nf2 show ?thesis by simp
        qed
      next
        case (Thrown e b)
        from copy_loop_Thrown [OF Thrown]
        have blen: "length b = length sA"
          and bl: "\<forall>j<length sA. (sA ! j = None) = (b ! j = None)" by simp_all
        have res: "assign_copy T this rhs (st, h) = Thrown e (st(this := with_slots A b), h)"
          using ne \<open>\<not> Capacity A < nB\<close> noshrink Thrown
          by (simp add: assign_copy_def std_copy_def defs Capacity_def)
        from copy_loop_Thrown_cause [OF Thrown]
        obtain i x y where e: "e = elem_exception" and i: "i < nA"
          and xy: "sB ! i = Some x" "sA ! i = Some y" "copy_assign_throws T y x" by auto
        from i grow have "i < nB" by simp
        with e i xy
        have cause: "e = elem_exception \<and>
                     (\<exists>i x y. i < nA \<and> i < nB \<and> sA ! i = Some y \<and> sB ! i = Some x \<and>
                              copy_assign_throws T y x)"
          by blast
        have inv': "Vector_inv (with_slots A b)"
        proof (rule Vector_invI)
          show "length (GetAddress (with_slots A b)) = Capacity (with_slots A b)"
            using blen lenA by simp
          show "size_m (with_slots A b) \<le> Capacity (with_slots A b)" using leA by (simp add: defs)
          show "GetAddress (with_slots A b) ! i \<noteq> None" if "i < size_m (with_slots A b)" for i
          proof -
            from that have i: "i < nA" by (simp add: defs)
            with leA lenA have "i < length sA" by simp
            with bl liveA [OF i] show ?thesis by simp
          qed
          show "GetAddress (with_slots A b) ! i = None"
            if "size_m (with_slots A b) \<le> i" "i < Capacity (with_slots A b)" for i
          proof -
            from that have i: "nA \<le> i" "i < Capacity A" by (simp_all add: defs)
            with bl deadA [OF i] lenA show ?thesis by simp
          qed
        qed
        from res inv' \<open>\<not> Capacity A < nB\<close> cause show ?thesis by (auto simp: defs)
      next
        case Fault
        with nf show ?thesis by simp
      qed
    qed
  qed
qed

theorem copy_assign_distinct_witness:
  "(0::nat) \<noteq> 1 \<and>
   Vector_inv (store2 (vec_of [1, 1, 1 :: int] 3) (vec_of [7, 7, 7, 7, 7] 5) 0) \<and>
   Vector_inv (store2 (vec_of [1, 1, 1 :: int] 3) (vec_of [7, 7, 7, 7, 7] 5) 1) \<and>
   Capacity (store2 (vec_of [1, 1, 1 :: int] 3) (vec_of [7, 7, 7, 7, 7] 5) 0)
     < size_m (store2 (vec_of [1, 1, 1 :: int] 3) (vec_of [7, 7, 7, 7, 7] 5) 1) \<and>
   assign_copy int_type 0 1 (store2 (vec_of [1, 1, 1] 3) (vec_of [7, 7, 7, 7, 7] 5), heap0) =
     Returned ((store2 (vec_of [1, 1, 1] 3) (vec_of [7, 7, 7, 7, 7] 5))
                 (0 := vec_of [7, 7, 7, 7, 7] 5), \<lparr>allocs = 1, avail = 62\<rparr>) \<and>
   Size (vec_of [7, 7, 7, 7, 7 :: int] 5) = 5 \<and>
   iterate (vec_of [7, 7, 7, 7, 7 :: int] 5) = replicate 5 (Some 7) \<and>
   Vector_inv (store2 (vec_of [1, 1, 1 :: int] 8) (vec_of [7, 7, 7, 7, 7] 5) 0) \<and>
   Vector_inv (store2 (vec_of [1, 1, 1 :: int] 8) (vec_of [7, 7, 7, 7, 7] 5) 1) \<and>
   (case assign_copy int_type 0 1
           (store2 (vec_of [1, 1, 1] 8) (vec_of [7, 7, 7, 7, 7] 5), heap0) of
      Returned (st', h') \<Rightarrow>
        st' 0 = vec_of [7, 7, 7, 7, 7] 8 \<and> st' 1 = vec_of [7, 7, 7, 7, 7] 5 \<and> h' = heap0
    | Thrown e s \<Rightarrow> False
    | Fault \<Rightarrow> False) \<and>
   Vector_inv (store2 (vec_of [1, 1, 1, 1, 1, 1 :: int] 8) (vec_of [7, 7] 5) 0) \<and>
   Vector_inv (store2 (vec_of [1, 1, 1, 1, 1, 1 :: int] 8) (vec_of [7, 7] 5) 1) \<and>
   (case assign_copy int_type 0 1
           (store2 (vec_of [1, 1, 1, 1, 1, 1] 8) (vec_of [7, 7] 5), heap0) of
      Returned (st', h') \<Rightarrow>
        st' 0 = vec_of [7, 7] 8 \<and> st' 1 = vec_of [7, 7] 5 \<and> h' = heap0
    | Thrown e s \<Rightarrow> False
    | Fault \<Rightarrow> False) \<and>
   Vector_inv (store2 (vec_of [1 :: int] 8) (vec_of [7, 2] 2) 0) \<and>
   Vector_inv (store2 (vec_of [1 :: int] 8) (vec_of [7, 2] 2) 1) \<and>
   (case assign_copy throwing_copy_type 0 1 (store2 (vec_of [1] 8) (vec_of [7, 2] 2), heap0) of
      Returned s \<Rightarrow> False
    | Thrown e (st', h') \<Rightarrow>
        e = elem_exception \<and> st' 0 = vec_of [7] 8 \<and> st' 1 = vec_of [7, 2] 2 \<and> h' = heap0 \<and>
        GetAddress (vec_of [7, 2 :: int] 2) ! 1 = Some 2 \<and> copy_ctor_throws throwing_copy_type 2
    | Fault \<Rightarrow> False)"
proof -
  have a: "(0::nat) \<noteq> 1" by simp
  have b: "Vector_inv (store2 (vec_of [1, 1, 1 :: int] 3) (vec_of [7, 7, 7, 7, 7] 5) 0)"
    by code_simp
  have c: "Vector_inv (store2 (vec_of [1, 1, 1 :: int] 3) (vec_of [7, 7, 7, 7, 7] 5) 1)"
    by code_simp
  have d: "iterate (vec_of [7, 7, 7, 7, 7 :: int] 5) = replicate 5 (Some 7)"
    by code_simp
  have b2: "Vector_inv (store2 (vec_of [1, 1, 1 :: int] 8) (vec_of [7, 7, 7, 7, 7] 5) 0)"
    by code_simp
  have c2: "Vector_inv (store2 (vec_of [1, 1, 1 :: int] 8) (vec_of [7, 7, 7, 7, 7] 5) 1)"
    by code_simp
  have e2: "case assign_copy int_type 0 1
           (store2 (vec_of [1, 1, 1] 8) (vec_of [7, 7, 7, 7, 7] 5), heap0) of
      Returned (st', h') \<Rightarrow>
        st' 0 = vec_of [7, 7, 7, 7, 7] 8 \<and> st' 1 = vec_of [7, 7, 7, 7, 7] 5 \<and> h' = heap0
    | Thrown e s \<Rightarrow> False
    | Fault \<Rightarrow> False"
    by code_simp
  have b3: "Vector_inv (store2 (vec_of [1, 1, 1, 1, 1, 1 :: int] 8) (vec_of [7, 7] 5) 0)"
    by code_simp
  have c3: "Vector_inv (store2 (vec_of [1, 1, 1, 1, 1, 1 :: int] 8) (vec_of [7, 7] 5) 1)"
    by code_simp
  have e3: "case assign_copy int_type 0 1
           (store2 (vec_of [1, 1, 1, 1, 1, 1] 8) (vec_of [7, 7] 5), heap0) of
      Returned (st', h') \<Rightarrow>
        st' 0 = vec_of [7, 7] 8 \<and> st' 1 = vec_of [7, 7] 5 \<and> h' = heap0
    | Thrown e s \<Rightarrow> False
    | Fault \<Rightarrow> False"
    by code_simp
  have b4: "Vector_inv (store2 (vec_of [1 :: int] 8) (vec_of [7, 2] 2) 0)" by code_simp
  have c4: "Vector_inv (store2 (vec_of [1 :: int] 8) (vec_of [7, 2] 2) 1)" by code_simp
  have e4: "case assign_copy throwing_copy_type 0 1
                 (store2 (vec_of [1] 8) (vec_of [7, 2] 2), heap0) of
      Returned s \<Rightarrow> False
    | Thrown e (st', h') \<Rightarrow>
        e = elem_exception \<and> st' 0 = vec_of [7] 8 \<and> st' 1 = vec_of [7, 2] 2 \<and> h' = heap0 \<and>
        GetAddress (vec_of [7, 2 :: int] 2) ! 1 = Some 2 \<and> copy_ctor_throws throwing_copy_type 2
    | Fault \<Rightarrow> False"
    by code_simp
  from copy_assign_distinct [OF a b c, where T = int_type and h = heap0]
       copy_assign_distinct [OF a b2 c2, where T = int_type and h = heap0]
       copy_assign_distinct [OF a b3 c3, where T = int_type and h = heap0]
       copy_assign_distinct [OF a b4 c4, where T = throwing_copy_type and h = heap0]
       assign_copy_example a b c d b2 c2 e2 b3 c3 e3 b4 c4 e4
  show ?thesis by (simp add: store2_def vec_of_simps Size_def)
qed

section \<open>The class invariant after a failed insertion\<close>

text \<open>
  Claim C8: every public operation preserves the invariant that \<open>0 <= size <= capacity\<close>
  and that exactly the first \<open>size\<close> slots hold live elements, also after a failed
  operation. \<open>Emplace\<close> into a buffer with spare capacity breaks it when the constructor
  of the new element throws: the shift has already moved the elements and destroyed the
  object at the insertion position, nothing restores it, and \<open>size_\<close> stays as it was.
  From the buffer \<open>[1, 3]\<close> of capacity 4, \<open>Insert\<close> at position 1 of a value whose copy
  constructor throws leaves size 2 with slot 1 holding no object and the value 3 in
  slot 2, outside the range.
\<close>

theorem Insert_failure_breaks_invariant:
  "Vector_inv (vec_of [1, 3 :: int] 4) \<and>
   Insert_copy throwing_copy_type 1 2 (vec_of [1, 3] 4, heap0) =
     Thrown elem_exception
       (\<lparr>size_m = 2, data_m = \<lparr>buffer_m = [Some 1, None, Some 3, None], capacity_m = 4\<rparr>\<rparr>,
        heap0) \<and>
   \<not> Vector_inv \<lparr>size_m = 2, data_m = \<lparr>buffer_m = [Some (1::int), None, Some 3, None],
                                          capacity_m = 4\<rparr>\<rparr> \<and>
   iterate \<lparr>size_m = 2, data_m = \<lparr>buffer_m = [Some (1::int), None, Some 3, None],
                                   capacity_m = 4\<rparr>\<rparr> = [Some 1, None]"
  by code_simp

section \<open>Removing the last element of an empty buffer\<close>

text \<open>
  Claim C9: for every buffer with \<open>size == 0\<close>, \<open>PopBack\<close> is a no-op: it neither faults
  nor asserts, and it leaves size, capacity and contents as they were.
\<close>

theorem PopBack_empty_noop:
  "size_m v = 0 \<Longrightarrow> PopBack (v, h) = Returned (v, h)"
  by (simp add: PopBack_def)

theorem PopBack_empty_noop_witness:
  "size_m (Vector_default :: int Vector) = 0 \<and>
   PopBack (Vector_default :: int Vector, heap0) = Returned (Vector_default, heap0)"
  using PopBack_empty_noop [of "Vector_default :: int Vector" heap0]
  by (simp add: Vector_default_def)

section \<open>Self-assignment\<close>

text \<open>
  Claim C10: copy-assigning a buffer to itself and move-assigning a buffer to itself each
  leave the buffer unchanged: the same size, capacity and element values. Both operators
  are called with the address of the same vector on both sides; the whole store and the
  heap stay as they were.
\<close>

theorem self_assignment_unchanged:
  "assign_copy T a a (st, h) = Returned (st, h) \<and> assign_move a a (st, h) = (st, h)"
  by (simp add: assign_copy_def assign_move_def)

end
